theory Spec2Isabelle
  imports
    Main
    "HOL-Library.AList"
    "HOL-Library.Char_ord"
    "HOL-Library.List_Lexorder"
begin

section \<open>JSON values and Python dictionaries\<close>

text \<open>
  Both scripts work on the value that \<^verbatim>\<open>json.load\<close> returns. A JSON object is a Python
  \<^verbatim>\<open>dict\<close>: string keys, kept in insertion order. It is modelled as an association list;
  a real \<^verbatim>\<open>dict\<close> never holds a key twice, so the theorems that depend on the order of the
  identifiers of a dataset assume \<open>distinct (map fst d)\<close>.
  Strings are byte lists (UTF-8); their lexicographic order is Python's order on \<^verbatim>\<open>str\<close>.
  A float is a mantissa and a binary exponent: the scripts only copy it and test it for zero.
\<close>

datatype json =
    JNull
  | JBool bool
  | JInt int
  | JFloat int int
  | JStr string
  | JArr "json list"
  | JObj "(string \<times> json) list"

type_synonym dict = "(string \<times> json) list"

datatype error =
    ValueError
  | AttributeError
  | TypeError
  | ZeroDivisionError
  | IndexError
  | KeyError
  | FileNotFoundError

text \<open>\<^verbatim>\<open>d.get(k)\<close> and \<^verbatim>\<open>d.get(k, default)\<close>.\<close>

definition get_default :: "dict \<Rightarrow> string \<Rightarrow> json \<Rightarrow> json" where
  "get_default d k dflt = (case map_of d k of None \<Rightarrow> dflt | Some v \<Rightarrow> v)"

definition get :: "dict \<Rightarrow> string \<Rightarrow> json" where
  "get d k = get_default d k JNull"

text \<open>Python's truth value, as \<^verbatim>\<open>x or y\<close> tests it.\<close>

fun truthy :: "json \<Rightarrow> bool" where
  "truthy JNull = False"
| "truthy (JBool b) = b"
| "truthy (JInt i) = (i \<noteq> 0)"
| "truthy (JFloat m e) = (m \<noteq> 0)"
| "truthy (JStr s) = (s \<noteq> [])"
| "truthy (JArr xs) = (xs \<noteq> [])"
| "truthy (JObj kvs) = (kvs \<noteq> [])"

definition py_or :: "json \<Rightarrow> json \<Rightarrow> json" where
  "py_or x y = (if truthy x then x else y)"

text \<open>A list comprehension over a function that may raise: the first exception ends it.\<close>

fun map_result :: "('a \<Rightarrow> error + 'b) \<Rightarrow> 'a list \<Rightarrow> error + 'b list" where
  "map_result f [] = Inr []"
| "map_result f (x # xs) =
     (case f x of
        Inl e \<Rightarrow> Inl e
      | Inr y \<Rightarrow> (case map_result f xs of Inl e \<Rightarrow> Inl e | Inr ys \<Rightarrow> Inr (y # ys)))"

section \<open>Decimal numerals: \<^verbatim>\<open>str(i)\<close>\<close>

definition digit_char :: "nat \<Rightarrow> char" where
  "digit_char d = ''0123456789'' ! d"

fun str_nat :: "nat \<Rightarrow> string" where
  "str_nat n = (if n < 10 then [digit_char n] else str_nat (n div 10) @ [digit_char (n mod 10)])"

declare str_nat.simps [simp del]

definition str_int :: "int \<Rightarrow> string" where
  "str_int i = (if i < 0 then CHR ''-'' # str_nat (nat (- i)) else str_nat (nat i))"

section \<open>The Record Converter (process_ids_10000_10009.py)\<close>

text \<open>
  \<^verbatim>\<open>convert_record(rec)\<close>. The parameter is annotated \<^verbatim>\<open>dict\<close>; on any other value the
  first \<^verbatim>\<open>rec.get\<close> raises AttributeError.
\<close>

definition convert_record :: "json \<Rightarrow> error + json" where
  "convert_record rec =
     (case rec of
        JObj r \<Rightarrow>
          (let question = get r ''question'';
               name = get r ''name'';
               answer_letter = get r ''answer'';
               choices = py_or (get r ''choices'') (JObj []);
               fact = (case answer_letter of
                         JStr a \<Rightarrow> (case choices of JObj c \<Rightarrow> get c a | _ \<Rightarrow> JNull)
                       | _ \<Rightarrow> JNull)
           in Inr (JObj [(''question'', question), (''fact'', fact), (''name'', name)]))
      | _ \<Rightarrow> Inl AttributeError)"

text \<open>\<^verbatim>\<open>selected_ids = {str(i) for i in range(10000, 10010)}\<close>\<close>

definition selected_ids :: "string set" where
  "selected_ids = set (map str_int [10000..10009])"

text \<open>
  The loop of \<^verbatim>\<open>process\<close> over \<^verbatim>\<open>data.items()\<close>, with the two dictionaries it fills.
  \<^verbatim>\<open>selected[k] = converted\<close> is \<^const>\<open>AList.update\<close>: a new key is appended, an old one keeps
  its place.
\<close>

fun process_loop :: "dict \<Rightarrow> dict \<Rightarrow> dict \<Rightarrow> error + (dict \<times> dict)" where
  "process_loop [] selected others = Inr (selected, others)"
| "process_loop ((k, v) # rest) selected others =
     (case v of
        JArr items \<Rightarrow>
          (case map_result convert_record items of
             Inl e \<Rightarrow> Inl e
           | Inr converted \<Rightarrow>
               if k \<in> selected_ids
               then process_loop rest (AList.update k (JArr converted) selected) others
               else process_loop rest selected (AList.update k (JArr converted) others))
      | _ \<Rightarrow> process_loop rest selected others)"

text \<open>
  What \<^verbatim>\<open>process\<close> does between reading the input and writing the outputs: the check of
  the top-level value, then the loop. The result is the pair (selected, others).
\<close>

definition process_data :: "json \<Rightarrow> error + (json \<times> json)" where
  "process_data data =
     (case data of
        JObj d \<Rightarrow>
          (case process_loop d [] [] of
             Inl e \<Rightarrow> Inl e
           | Inr (selected, others) \<Rightarrow> Inr (JObj selected, JObj others))
      | _ \<Rightarrow> Inl ValueError)"

section \<open>The file system\<close>

text \<open>
  Files hold JSON documents (\<^verbatim>\<open>json.load\<close> and \<^verbatim>\<open>json.dump\<close> read and write the value),
  directories are a set of paths. Reading a missing file raises; writing and
  \<^verbatim>\<open>os.makedirs(outdir, exist_ok=True)\<close> succeed. What the scripts print is not modelled.
\<close>

record fs =
  files :: "string \<rightharpoonup> json"
  dirs :: "string set"

definition load_json :: "string \<Rightarrow> fs \<Rightarrow> error + json" where
  "load_json path s = (case files s path of None \<Rightarrow> Inl FileNotFoundError | Some v \<Rightarrow> Inr v)"

definition dump_json :: "string \<Rightarrow> json \<Rightarrow> fs \<Rightarrow> fs" where
  "dump_json path v s = s\<lparr>files := (files s)(path \<mapsto> v)\<rparr>"

definition ensure_outdir :: "string \<Rightarrow> fs \<Rightarrow> fs" where
  "ensure_outdir outdir s = s\<lparr>dirs := insert outdir (dirs s)\<rparr>"

text \<open>
  \<^verbatim>\<open>process(in_path, out_selected, out_others)\<close>: the exception raised, if any, and the
  file system it leaves.
\<close>

definition process :: "string \<Rightarrow> string \<Rightarrow> string \<Rightarrow> fs \<Rightarrow> error option \<times> fs" where
  "process in_path out_selected out_others s =
     (case load_json in_path s of
        Inl e \<Rightarrow> (Some e, s)
      | Inr data \<Rightarrow>
          (case process_data data of
             Inl e \<Rightarrow> (Some e, s)
           | Inr (selected, others) \<Rightarrow>
               (None, dump_json out_others others (dump_json out_selected selected s))))"

section \<open>The Shard Splitter (split_whp.py)\<close>

text \<open>
  \<^verbatim>\<open>ans not in choices\<close> hashes \<^verbatim>\<open>ans\<close> first: a list or a dict raises TypeError. The keys
  of a loaded JSON object are strings, so only a string can be among them.
\<close>

fun hashable :: "json \<Rightarrow> bool" where
  "hashable (JArr xs) = False"
| "hashable (JObj kvs) = False"
| "hashable v = True"

fun key_in :: "json \<Rightarrow> dict \<Rightarrow> bool" where
  "key_in (JStr a) c = (map_of c a \<noteq> None)"
| "key_in v c = False"

fun get_json :: "dict \<Rightarrow> json \<Rightarrow> json" where
  "get_json c (JStr a) = get c a"
| "get_json c v = JNull"

text \<open>The loop of \<^verbatim>\<open>transform_items\<close>, with the list \<^verbatim>\<open>out\<close> it appends to.\<close>

fun transform_loop :: "json list \<Rightarrow> json list \<Rightarrow> error + json list" where
  "transform_loop [] out = Inr out"
| "transform_loop (it # items) out =
     (case it of
        JObj r \<Rightarrow>
          (let ans = get r ''answer'';
               choices = get_default r ''choices'' (JObj [])
           in case choices of
                JObj c \<Rightarrow>
                  if \<not> hashable ans then Inl TypeError
                  else if \<not> key_in ans c then transform_loop items out
                  else (let fact_text = get_json c ans
                        in if fact_text = JNull then transform_loop items out
                           else transform_loop items
                                  (out @ [JObj [(''name'', get r ''name''),
                                                (''question'', get r ''question''),
                                                (''fact'', fact_text)]]))
              | _ \<Rightarrow> transform_loop items out)
      | _ \<Rightarrow> Inl AttributeError)"

definition transform_items :: "json list \<Rightarrow> error + json list" where
  "transform_items items = transform_loop items []"

text \<open>
  \<^verbatim>\<open>shard_ids(all_ids, n)\<close>: \<^verbatim>\<open>range(n)\<close> is empty for \<open>n \<le> 0\<close>, \<^verbatim>\<open>idx % n\<close> raises for
  \<open>n = 0\<close> and has the sign of \<open>n\<close> otherwise, and a negative index counts from the end of
  the list.
\<close>

fun shard_loop :: "nat \<Rightarrow> string list \<Rightarrow> int \<Rightarrow> string list list \<Rightarrow> error + string list list" where
  "shard_loop idx [] n buckets = Inr buckets"
| "shard_loop idx (pid # rest) n buckets =
     (if n = 0 then Inl ZeroDivisionError
      else (let j = int idx mod n;
                len = int (length buckets);
                j' = (if j < 0 then j + len else j)
            in if 0 \<le> j' \<and> j' < len
               then shard_loop (Suc idx) rest n
                      (buckets[nat j' := buckets ! nat j' @ [pid]])
               else Inl IndexError))"

definition shard_ids :: "string list \<Rightarrow> int \<Rightarrow> error + string list list" where
  "shard_ids all_ids n = shard_loop 0 all_ids n (replicate (nat n) [])"

text \<open>The command line, as \<^verbatim>\<open>parse_args\<close> returns it.\<close>

record args =
  input :: string
  num_shards :: int
  outdir :: "string option"
  sort_ids :: bool

text \<open>
  The paths, for POSIX \<^verbatim>\<open>os.path\<close>: \<^verbatim>\<open>basename\<close>, the root of \<^verbatim>\<open>splitext\<close> on a name without
  a separator (leading dots are not an extension), and \<^verbatim>\<open>join\<close>.
\<close>

definition basename :: "string \<Rightarrow> string" where
  "basename p = rev (takeWhile (\<lambda>c. c \<noteq> CHR ''/'') (rev p))"

definition splitext_root :: "string \<Rightarrow> string" where
  "splitext_root p =
     (if CHR ''.'' \<in> set p
      then (let root = rev (tl (dropWhile (\<lambda>c. c \<noteq> CHR ''.'') (rev p)))
            in if filter (\<lambda>c. c \<noteq> CHR ''.'') root \<noteq> [] then root else p)
      else p)"

definition path_join :: "string \<Rightarrow> string \<Rightarrow> string" where
  "path_join a b =
     (if b \<noteq> [] \<and> hd b = CHR ''/'' then b
      else if a = [] \<or> last a = CHR ''/'' then a @ b
      else a @ ''/'' @ b)"

definition choose_outdir :: "args \<Rightarrow> string" where
  "choose_outdir a =
     (case outdir a of
        Some d \<Rightarrow> if d \<noteq> [] then d
                  else splitext_root (basename (input a)) @ ''_splits_'' @ str_int (num_shards a)
      | None \<Rightarrow> splitext_root (basename (input a)) @ ''_splits_'' @ str_int (num_shards a))"

text \<open>\<^verbatim>\<open>f"{i:0{width}d}"\<close> for the shard numbers, which start at 1.\<close>

definition zero_pad :: "nat \<Rightarrow> nat \<Rightarrow> string" where
  "zero_pad width i = replicate (width - length (str_nat i)) (CHR ''0'') @ str_nat i"

definition shard_path :: "string \<Rightarrow> nat \<Rightarrow> nat \<Rightarrow> string" where
  "shard_path dir width i = path_join dir (''split_'' @ zero_pad width i @ ''.json'')"

text \<open>
  The first loop of \<^verbatim>\<open>main\<close>: the items of each id are transformed, and the id is kept in
  \<^verbatim>\<open>transformed\<close> when the new list is not empty.
\<close>

definition new_items_of :: "json \<Rightarrow> error + json list" where
  "new_items_of items =
     (case items of
        JArr xs \<Rightarrow> transform_items xs
      | JObj r \<Rightarrow> transform_items [JObj r]
      | _ \<Rightarrow> Inr [])"

fun transform_all :: "string list \<Rightarrow> dict \<Rightarrow> dict \<Rightarrow> error + dict" where
  "transform_all [] data transformed = Inr transformed"
| "transform_all (pid # rest) data transformed =
     (case new_items_of (get data pid) of
        Inl e \<Rightarrow> Inl e
      | Inr new_items \<Rightarrow>
          if new_items \<noteq> []
          then transform_all rest data (AList.update pid (JArr new_items) transformed)
          else transform_all rest data transformed)"

text \<open>\<^verbatim>\<open>{pid: transformed[pid] for pid in bucket}\<close>; the subscript raises on a missing key.\<close>

fun shard_dict_loop :: "dict \<Rightarrow> string list \<Rightarrow> dict \<Rightarrow> error + dict" where
  "shard_dict_loop transformed [] acc = Inr acc"
| "shard_dict_loop transformed (pid # rest) acc =
     (case map_of transformed pid of
        None \<Rightarrow> Inl KeyError
      | Some v \<Rightarrow> shard_dict_loop transformed rest (AList.update pid v acc))"

definition shard_dict :: "dict \<Rightarrow> string list \<Rightarrow> error + dict" where
  "shard_dict transformed bucket = shard_dict_loop transformed bucket []"

text \<open>The second loop of \<^verbatim>\<open>main\<close>: one file for each bucket, numbered from \<open>i\<close>.\<close>

fun write_shards :: "string \<Rightarrow> nat \<Rightarrow> nat \<Rightarrow> string list list \<Rightarrow> dict \<Rightarrow> fs \<Rightarrow> error option \<times> fs" where
  "write_shards dir width i [] transformed s = (None, s)"
| "write_shards dir width i (bucket # rest) transformed s =
     (case shard_dict transformed bucket of
        Inl e \<Rightarrow> (Some e, s)
      | Inr sd \<Rightarrow>
          write_shards dir width (Suc i) rest transformed
            (dump_json (shard_path dir width i) (JObj sd) s))"

definition all_ids_of :: "args \<Rightarrow> dict \<Rightarrow> string list" where
  "all_ids_of a d = (if sort_ids a then sort (map fst d) else map fst d)"

definition filtered_ids_of :: "string list \<Rightarrow> dict \<Rightarrow> string list" where
  "filtered_ids_of all_ids transformed = filter (\<lambda>pid. map_of transformed pid \<noteq> None) all_ids"

definition shard_width :: "int \<Rightarrow> nat" where
  "shard_width n = max 2 (length (str_int n))"

text \<open>\<^verbatim>\<open>main()\<close>: the exception raised, if any, and the file system it leaves.\<close>

definition main :: "args \<Rightarrow> fs \<Rightarrow> error option \<times> fs" where
  "main a s =
     (case load_json (input a) s of
        Inl e \<Rightarrow> (Some e, s)
      | Inr data \<Rightarrow>
          (case data of
             JObj d \<Rightarrow>
               (let dir = choose_outdir a;
                    s1 = ensure_outdir dir s;
                    all_ids = all_ids_of a d
                in case transform_all all_ids d [] of
                     Inl e \<Rightarrow> (Some e, s1)
                   | Inr transformed \<Rightarrow>
                       (case shard_ids (filtered_ids_of all_ids transformed) (num_shards a) of
                          Inl e \<Rightarrow> (Some e, s1)
                        | Inr buckets \<Rightarrow>
                            write_shards dir (shard_width (num_shards a)) 1 buckets
                              transformed s1))
           | _ \<Rightarrow> (Some ValueError, s)))"

section \<open>Notions of the specification and of the proofs\<close>

text \<open>
  The fact of a record in the specification's words: the value of \<^verbatim>\<open>choices[answer]\<close> when
  \<^verbatim>\<open>answer\<close> is a string key of the \<^verbatim>\<open>choices\<close> object, null otherwise.
\<close>

definition spec_fact :: "dict \<Rightarrow> json" where
  "spec_fact r =
     (case map_of r ''answer'' of
        Some (JStr a) \<Rightarrow>
          (case map_of r ''choices'' of
             Some (JObj c) \<Rightarrow> (case map_of c a of Some v \<Rightarrow> v | None \<Rightarrow> JNull)
           | _ \<Rightarrow> JNull)
      | _ \<Rightarrow> JNull)"

text \<open>\<^verbatim>\<open>isinstance(v, dict)\<close>\<close>

fun is_dict :: "json \<Rightarrow> bool" where
  "is_dict (JObj kvs) = True"
| "is_dict v = False"

text \<open>The number of records of a dataset: the lengths of its list values, added up.\<close>

definition count_records :: "dict \<Rightarrow> nat" where
  "count_records d = sum_list (map (\<lambda>(k, v). case v of JArr items \<Rightarrow> length items | _ \<Rightarrow> 0) d)"

text \<open>Every element of every list value is an object, as the annotation of \<^verbatim>\<open>convert_record\<close> asks.\<close>

definition records_ok :: "dict \<Rightarrow> bool" where
  "records_ok d = list_all (\<lambda>(k, v). case v of JArr items \<Rightarrow> list_all is_dict items | _ \<Rightarrow> True) d"

text \<open>
  What one entry of the dataset adds to the output dictionary of the identifiers that satisfy
  \<open>P\<close>, and what the whole dataset adds. They serve the proofs about \<^const>\<open>process_loop\<close>.
\<close>

definition routed1 :: "(string \<Rightarrow> bool) \<Rightarrow> string \<times> json \<Rightarrow> dict" where
  "routed1 P kv =
     (case snd kv of
        JArr items \<Rightarrow>
          (case map_result convert_record items of
             Inl e \<Rightarrow> []
           | Inr converted \<Rightarrow> if P (fst kv) then [(fst kv, JArr converted)] else [])
      | _ \<Rightarrow> [])"

definition routed :: "(string \<Rightarrow> bool) \<Rightarrow> dict \<Rightarrow> dict" where
  "routed P d = concat (map (routed1 P) d)"

text \<open>\<^verbatim>\<open>isinstance(v, list)\<close>\<close>

fun is_list :: "json \<Rightarrow> bool" where
  "is_list (JArr xs) = True"
| "is_list v = False"

text \<open>A dataset with a selected identifier, another one, a value that is no list, and an empty list.\<close>

definition example_dataset :: dict where
  "example_dataset =
     [(''10000'', JArr [JObj [(''question'', JStr ''Q1''), (''answer'', JStr ''A''),
                             (''choices'', JObj [(''A'', JStr ''fact1''), (''B'', JStr ''fact2'')])]]),
      (''20000'', JArr [JObj [(''question'', JStr ''Q2''), (''answer'', JStr ''X''),
                             (''choices'', JObj [(''A'', JStr ''fact3'')])]]),
      (''30000'', JStr ''note''),
      (''10001'', JArr [])]"

text \<open>
  The test \<^verbatim>\<open>if new_items\<close> of \<^verbatim>\<open>main\<close> on one identifier: its items are transformed without
  an error and at least one record is left.
\<close>

definition survives :: "dict \<Rightarrow> string \<Rightarrow> bool" where
  "survives d pid = (case new_items_of (get d pid) of Inl e \<Rightarrow> False | Inr ys \<Rightarrow> ys \<noteq> [])"

text \<open>The entry that \<^verbatim>\<open>transformed\<close> holds for an identifier that survives.\<close>

definition new_entry :: "dict \<Rightarrow> string \<Rightarrow> string \<times> json" where
  "new_entry d pid = (pid, JArr (case new_items_of (get d pid) of Inl e \<Rightarrow> [] | Inr ys \<Rightarrow> ys))"

text \<open>
  Round-robin in the specification's words: bucket \<open>b\<close> of \<open>n\<close> holds the identifiers at the
  positions \<open>idx\<close> with \<open>idx mod n = b\<close>, in the order of their positions.
\<close>

definition round_robin :: "'a list \<Rightarrow> nat \<Rightarrow> nat \<Rightarrow> 'a list" where
  "round_robin ids n b = map (nth ids) (filter (\<lambda>i. i mod n = b) [0..<length ids])"

text \<open>The number that a string of decimal digits denotes; it inverts \<^const>\<open>str_nat\<close>.\<close>

definition digit_value :: "char \<Rightarrow> nat" where
  "digit_value c = length (takeWhile (\<lambda>x. x \<noteq> c) ''0123456789'')"

definition digits_value :: "string \<Rightarrow> nat" where
  "digits_value cs = foldl (\<lambda>acc c. 10 * acc + digit_value c) 0 cs"

text \<open>
  The identifiers that \<^verbatim>\<open>main\<close> shards, in processing order, the path of shard file \<open>k\<close>, and
  what the file is to hold: the entries of the identifiers of bucket \<open>k - 1\<close>.
\<close>

definition survivors :: "args \<Rightarrow> dict \<Rightarrow> string list" where
  "survivors a d = filter (survives d) (all_ids_of a d)"

definition shard_file :: "args \<Rightarrow> nat \<Rightarrow> string" where
  "shard_file a k = shard_path (choose_outdir a) (shard_width (num_shards a)) k"

definition shard_of :: "args \<Rightarrow> dict \<Rightarrow> nat \<Rightarrow> dict" where
  "shard_of a d k = map (new_entry d) (round_robin (survivors a d) (nat (num_shards a)) (k - 1))"

text \<open>
  The normalised value of an identifier in the specification's words: a list as it is, a
  single object as a list of one element, anything else as the empty list.
\<close>

definition normalize :: "json \<Rightarrow> json list" where
  "normalize v = (case v of JArr xs \<Rightarrow> xs | JObj r \<Rightarrow> [JObj r] | _ \<Rightarrow> [])"

text \<open>
  A run of the Splitter: six identifiers, not in order, of which three survive, split into two
  shards with \<^verbatim>\<open>--sort_ids\<close>.
\<close>

definition example_mcq :: "string \<Rightarrow> string \<Rightarrow> json" where
  "example_mcq q ans =
     JObj [(''name'', JStr ''n''), (''question'', JStr q), (''answer'', JStr ans),
           (''choices'', JObj [(''A'', JStr ''yes''), (''B'', JStr ''no'')])]"

definition example_people :: dict where
  "example_people =
     [(''p2'', JArr [example_mcq ''q1'' ''A'']),
      (''p1'', example_mcq ''q2'' ''B''),
      (''p3'', JArr [example_mcq ''q3'' ''C'']),
      (''p5'', JArr [example_mcq ''q4'' ''A'', example_mcq ''q5'' ''D'']),
      (''p4'', JArr []),
      (''p0'', JStr ''x'')]"

definition example_args :: args where
  "example_args = \<lparr>input = ''in.json'', num_shards = 2, outdir = Some ''out'', sort_ids = True\<rparr>"

definition example_fs :: fs where
  "example_fs = \<lparr>files = [''in.json'' \<mapsto> JObj example_people], dirs = {}\<rparr>"

text \<open>The example dataset of the Splitter with its identifiers in another order.\<close>

definition example_people_reordered :: dict where
  "example_people_reordered =
     [(''p0'', JStr ''x''),
      (''p5'', JArr [example_mcq ''q4'' ''A'', example_mcq ''q5'' ''D'']),
      (''p1'', example_mcq ''q2'' ''B''),
      (''p4'', JArr []),
      (''p2'', JArr [example_mcq ''q1'' ''A'']),
      (''p3'', JArr [example_mcq ''q3'' ''C''])]"

definition example_fs_reordered :: fs where
  "example_fs_reordered = \<lparr>files = [''in.json'' \<mapsto> JObj example_people_reordered], dirs = {}\<rparr>"

text \<open>
  The condition of the specification for a record to be emitted by \<^verbatim>\<open>transform_items\<close>: its
  choices are an object, its answer is a key of that object, and the value there is not null.
  Then the record that is emitted.
\<close>

definition emits :: "dict \<Rightarrow> bool" where
  "emits r = (\<exists>c a v. map_of r ''choices'' = Some (JObj c) \<and> map_of r ''answer'' = Some (JStr a)
                \<and> map_of c a = Some v \<and> v \<noteq> JNull)"

definition emitted :: "dict \<Rightarrow> json" where
  "emitted r = JObj [(''name'', get r ''name''), (''question'', get r ''question''),
                     (''fact'', spec_fact r)]"

text \<open>
  The items on which \<^verbatim>\<open>transform_items\<close> raises nothing: objects whose answer can be hashed
  (it is no list and no object) when the choices, \<^verbatim>\<open>{}\<close> if absent, are an object.
\<close>

fun item_ok :: "json \<Rightarrow> bool" where
  "item_ok (JObj r) =
     (case get_default r ''choices'' (JObj []) of
        JObj c \<Rightarrow> hashable (get r ''answer'')
      | _ \<Rightarrow> True)"
| "item_ok v = False"

text \<open>What one such item adds to \<^verbatim>\<open>out\<close>, computed as the loop does.\<close>

definition transform_step :: "dict \<Rightarrow> json list" where
  "transform_step r =
     (case get_default r ''choices'' (JObj []) of
        JObj c \<Rightarrow>
          if key_in (get r ''answer'') c \<and> get_json c (get r ''answer'') \<noteq> JNull
          then [JObj [(''name'', get r ''name''), (''question'', get r ''question''),
                      (''fact'', get_json c (get r ''answer''))]]
          else []
      | _ \<Rightarrow> [])"

fun transform1 :: "json \<Rightarrow> json list" where
  "transform1 (JObj r) = transform_step r"
| "transform1 v = []"

section \<open>The conversion of one record\<close>

lemma py_or_choices:
  "(case py_or v (JObj []) of JObj c \<Rightarrow> get c a | _ \<Rightarrow> JNull)
     = (case v of JObj c \<Rightarrow> get c a | _ \<Rightarrow> JNull)"
  by (cases v) (simp_all add: py_or_def get_def get_default_def)

lemma fact_of_choices:
  "(case get r ''choices'' of JObj c \<Rightarrow> get c a | _ \<Rightarrow> JNull)
     = (case map_of r ''choices'' of
          Some (JObj c) \<Rightarrow> (case map_of c a of Some v \<Rightarrow> v | None \<Rightarrow> JNull)
        | _ \<Rightarrow> JNull)"
  by (simp add: get_def get_default_def split: option.split json.split)

lemma convert_record_eq:
  "convert_record (JObj r) =
     Inr (JObj [(''question'', get r ''question''), (''fact'', spec_fact r),
                (''name'', get r ''name'')])"
proof -
  have "(case get r ''answer'' of
           JStr a \<Rightarrow> (case py_or (get r ''choices'') (JObj []) of JObj c \<Rightarrow> get c a | _ \<Rightarrow> JNull)
         | _ \<Rightarrow> JNull) = spec_fact r"
    unfolding py_or_choices fact_of_choices spec_fact_def
    by (cases "map_of r ''answer''") (simp_all add: get_def get_default_def split: json.split)
  then show ?thesis
    by (simp add: convert_record_def Let_def)
qed

lemma spec_fact_resolved:
  "map_of r ''answer'' = Some (JStr a) \<Longrightarrow> map_of r ''choices'' = Some (JObj c) \<Longrightarrow>
     map_of c a = Some v \<Longrightarrow> spec_fact r = v"
  by (simp add: spec_fact_def)

lemma spec_fact_unresolved:
  assumes "\<nexists>a c v. map_of r ''answer'' = Some (JStr a) \<and> map_of r ''choices'' = Some (JObj c)
            \<and> map_of c a = Some v"
  shows "spec_fact r = JNull"
proof (cases "map_of r ''answer''")
  case None
  then show ?thesis by (simp add: spec_fact_def)
next
  case (Some ans)
  note ans = this
  show ?thesis
  proof (cases ans)
    case (JStr a)
    show ?thesis
    proof (cases "map_of r ''choices''")
      case None
      with ans JStr show ?thesis by (simp add: spec_fact_def)
    next
      case (Some ch)
      note ch = this
      show ?thesis
      proof (cases ch)
        case (JObj c)
        with assms ans JStr ch have "map_of c a = None"
          by (cases "map_of c a") auto
        with ans JStr ch JObj show ?thesis
          by (simp add: spec_fact_def)
      qed (use ans JStr ch in \<open>simp_all add: spec_fact_def\<close>)
    qed
  qed (use ans in \<open>simp_all add: spec_fact_def\<close>)
qed

text \<open>
  Claim C1. On every record, \<^verbatim>\<open>convert_record\<close> returns a record of exactly the three
  fields question, fact and name. The fields question and name are those of the input, null
  when the input has none. The fact is \<^verbatim>\<open>choices[answer]\<close> when the answer is a string, the
  choices are an object and the answer is one of its keys; in every other case it is null.
\<close>

theorem convert_record_fields:
  "\<exists>q f n. convert_record (JObj r) = Inr (JObj [(''question'', q), (''fact'', f), (''name'', n)])
     \<and> q = (case map_of r ''question'' of Some v \<Rightarrow> v | None \<Rightarrow> JNull)
     \<and> n = (case map_of r ''name'' of Some v \<Rightarrow> v | None \<Rightarrow> JNull)
     \<and> (\<forall>a c v. map_of r ''answer'' = Some (JStr a) \<and> map_of r ''choices'' = Some (JObj c)
            \<and> map_of c a = Some v \<longrightarrow> f = v)
     \<and> ((\<nexists>a c v. map_of r ''answer'' = Some (JStr a) \<and> map_of r ''choices'' = Some (JObj c)
            \<and> map_of c a = Some v) \<longrightarrow> f = JNull)"
proof (intro exI conjI)
  show "convert_record (JObj r) =
     Inr (JObj [(''question'', get r ''question''), (''fact'', spec_fact r),
                (''name'', get r ''name'')])"
    by (rule convert_record_eq)
  show "get r ''question'' = (case map_of r ''question'' of Some v \<Rightarrow> v | None \<Rightarrow> JNull)"
    by (simp add: get_def get_default_def split: option.split)
  show "get r ''name'' = (case map_of r ''name'' of Some v \<Rightarrow> v | None \<Rightarrow> JNull)"
    by (simp add: get_def get_default_def split: option.split)
  show "\<forall>a c v. map_of r ''answer'' = Some (JStr a) \<and> map_of r ''choices'' = Some (JObj c)
            \<and> map_of c a = Some v \<longrightarrow> spec_fact r = v"
    using spec_fact_resolved by blast
  show "(\<nexists>a c v. map_of r ''answer'' = Some (JStr a) \<and> map_of r ''choices'' = Some (JObj c)
            \<and> map_of c a = Some v) \<longrightarrow> spec_fact r = JNull"
    using spec_fact_unresolved by blast
qed

theorem convert_record_fields_witness:
  "convert_record (JObj [(''question'', JStr ''Q1''), (''answer'', JStr ''A''),
      (''choices'', JObj [(''A'', JStr ''fact1''), (''B'', JStr ''fact2'')])])
   = Inr (JObj [(''question'', JStr ''Q1''), (''fact'', JStr ''fact1''), (''name'', JNull)])"
  using convert_record_fields [of "[(''question'', JStr ''Q1''), (''answer'', JStr ''A''),
      (''choices'', JObj [(''A'', JStr ''fact1''), (''B'', JStr ''fact2'')])]"]
  by auto

section \<open>A top-level value that is not an object\<close>

text \<open>
  Claim C7. When the input file holds a JSON value that is not an object, \<^verbatim>\<open>process\<close> and
  \<^verbatim>\<open>main\<close> both raise ValueError and leave the file system as they found it: no output file
  is written and no directory is created.
\<close>

theorem not_object_aborts:
  "files s in_path = Some data \<Longrightarrow> files s (input a) = Some data \<Longrightarrow> \<not> is_dict data \<Longrightarrow>
     process in_path out_selected out_others s = (Some ValueError, s)
     \<and> main a s = (Some ValueError, s)"
  by (cases data) (simp_all add: process_def main_def load_json_def process_data_def)

theorem not_object_aborts_witness:
  "process ''in.json'' ''sel.json'' ''oth.json'' \<lparr>files = [''in.json'' \<mapsto> JArr []], dirs = {}\<rparr>
     = (Some ValueError, \<lparr>files = [''in.json'' \<mapsto> JArr []], dirs = {}\<rparr>)
   \<and> main \<lparr>input = ''in.json'', num_shards = 2, outdir = None, sort_ids = False\<rparr>
        \<lparr>files = [''in.json'' \<mapsto> JArr []], dirs = {}\<rparr>
     = (Some ValueError, \<lparr>files = [''in.json'' \<mapsto> JArr []], dirs = {}\<rparr>)"
  using not_object_aborts [of "\<lparr>files = [''in.json'' \<mapsto> JArr []], dirs = {}\<rparr>" "''in.json''"
      "JArr []" "\<lparr>input = ''in.json'', num_shards = 2, outdir = None, sort_ids = False\<rparr>"
      "''sel.json''" "''oth.json''"]
  by simp

section \<open>The transformation of the items of one identifier\<close>

text \<open>
  Claim C2. \<^verbatim>\<open>transform_items\<close> is to drop, without an error, every record whose answer is
  not a key of its choices. On a record whose choices are an object and whose answer is a
  JSON array, the membership test raises TypeError instead, and the call returns nothing.
  (On records whose answers can be hashed the function does what the claim says:
  \<open>transform_items_records\<close>.)
\<close>

theorem transform_items_unhashable_answer:
  "transform_items [JObj [(''name'', JStr ''n''), (''question'', JStr ''q''),
      (''answer'', JArr [JStr ''A'']), (''choices'', JObj [(''A'', JStr ''x'')])]] = Inl TypeError"
  by (simp add: transform_items_def get_def get_default_def)

section \<open>The Converter's two outputs\<close>

lemma str_nat_small: "n < 10 \<Longrightarrow> str_nat n = [digit_char n]"
  by (simp add: str_nat.simps)

lemma str_nat_step: "10 \<le> n \<Longrightarrow> str_nat n = str_nat (n div 10) @ [digit_char (n mod 10)]"
  by (subst str_nat.simps) simp

lemma upto_sel:
  "[10000..10009] = [10000, 10001, 10002, 10003, 10004, 10005, 10006, 10007, 10008, 10009::int]"
  by (simp add: upto.simps)

lemma selected_ids_eq:
  "selected_ids = {''10000'', ''10001'', ''10002'', ''10003'', ''10004'', ''10005'', ''10006'',
                   ''10007'', ''10008'', ''10009''}"
  by (simp add: selected_ids_def upto_sel str_int_def str_nat_small str_nat_step digit_char_def)

lemma update_fresh: "k \<notin> fst ` set al \<Longrightarrow> AList.update k v al = al @ [(k, v)]"
  by (induction al) auto

lemma map_result_length: "map_result f xs = Inr ys \<Longrightarrow> length ys = length xs"
  by (induction xs arbitrary: ys) (auto split: sum.splits)

lemma map_result_total:
  "list_all (\<lambda>x. \<exists>y. f x = Inr y) xs \<Longrightarrow> \<exists>ys. map_result f xs = Inr ys"
  by (induction xs) auto

lemma convert_record_dict: "is_dict x \<Longrightarrow> \<exists>y. convert_record x = Inr y"
  by (cases x) (simp_all add: convert_record_eq)

lemma convert_all_total: "list_all is_dict items \<Longrightarrow> \<exists>ys. map_result convert_record items = Inr ys"
  by (rule map_result_total) (simp add: list_all_iff convert_record_dict)

lemma routed_Nil: "routed P [] = []"
  by (simp add: routed_def)

lemma routed_Cons: "routed P (kv # d) = routed1 P kv @ routed P d"
  by (simp add: routed_def)

lemma routed1_cases:
  "routed1 P kv = [] \<or> (\<exists>items converted. snd kv = JArr items \<and>
      map_result convert_record items = Inr converted \<and> P (fst kv) \<and>
      routed1 P kv = [(fst kv, JArr converted)])"
proof (cases "snd kv")
  case (JArr items)
  then show ?thesis
    by (cases "map_result convert_record items") (simp_all add: routed1_def)
qed (simp_all add: routed1_def)

lemma routed1_keys: "fst ` set (routed1 P kv) \<subseteq> {fst kv}"
  using routed1_cases[of P kv] by auto

lemma routed_keys: "fst ` set (routed P d) \<subseteq> fst ` set d"
proof (induction d)
  case Nil
  then show ?case by (simp add: routed_Nil)
next
  case (Cons kv d)
  with routed1_keys[of P kv] show ?case
    unfolding routed_Cons by auto
qed

lemma process_loop_fresh:
  assumes "k \<notin> fst ` set sel" "k \<notin> fst ` set oth"
    and "process_loop ((k, v) # rest) sel oth = Inr r"
  shows "process_loop rest (sel @ routed1 (\<lambda>k. k \<in> selected_ids) (k, v))
           (oth @ routed1 (\<lambda>k. k \<notin> selected_ids) (k, v)) = Inr r"
proof (cases v)
  case (JArr items)
  show ?thesis
  proof (cases "map_result convert_record items")
    case (Inl e)
    with JArr assms(3) show ?thesis by simp
  next
    case (Inr converted)
    with JArr assms show ?thesis
      by (cases "k \<in> selected_ids") (simp_all add: routed1_def update_fresh)
  qed
qed (use assms(3) in \<open>simp_all add: routed1_def\<close>)

lemma process_loop_routed:
  "distinct (map fst d) \<Longrightarrow> fst ` set d \<inter> fst ` set sel = {} \<Longrightarrow>
   fst ` set d \<inter> fst ` set oth = {} \<Longrightarrow> process_loop d sel oth = Inr (sel', oth') \<Longrightarrow>
   sel' = sel @ routed (\<lambda>k. k \<in> selected_ids) d \<and> oth' = oth @ routed (\<lambda>k. k \<notin> selected_ids) d"
proof (induction d arbitrary: sel oth)
  case Nil
  then show ?case by (simp add: routed_Nil)
next
  case (Cons kv d)
  obtain k v where kv: "kv = (k, v)" by (cases kv)
  have fresh: "k \<notin> fst ` set sel" "k \<notin> fst ` set oth" "k \<notin> fst ` set d"
    using Cons.prems kv by auto
  have dist: "distinct (map fst d)"
    using Cons.prems by simp
  have step: "process_loop d (sel @ routed1 (\<lambda>k. k \<in> selected_ids) (k, v))
           (oth @ routed1 (\<lambda>k. k \<notin> selected_ids) (k, v)) = Inr (sel', oth')"
    using process_loop_fresh[OF fresh(1,2)] Cons.prems(4) kv by simp
  have d1: "fst ` set d \<inter> fst ` set (sel @ routed1 (\<lambda>k. k \<in> selected_ids) (k, v)) = {}"
    using Cons.prems(2) fresh(3) routed1_keys[of "\<lambda>k. k \<in> selected_ids" "(k, v)"] by auto
  have d2: "fst ` set d \<inter> fst ` set (oth @ routed1 (\<lambda>k. k \<notin> selected_ids) (k, v)) = {}"
    using Cons.prems(3) fresh(3) routed1_keys[of "\<lambda>k. k \<notin> selected_ids" "(k, v)"] by auto
  from Cons.IH[OF dist d1 d2 step] show ?case
    by (simp add: routed_Cons kv)
qed

lemma process_loop_total:
  "records_ok d \<Longrightarrow> \<exists>r. process_loop d sel oth = Inr r"
proof (induction d arbitrary: sel oth)
  case Nil
  then show ?case by simp
next
  case (Cons kv d)
  obtain k v where kv: "kv = (k, v)" by (cases kv)
  from Cons.prems have ok: "records_ok d" by (simp add: records_ok_def)
  show ?case
  proof (cases v)
    case (JArr items)
    with Cons.prems kv have "list_all is_dict items" by (simp add: records_ok_def)
    then obtain ys where ys: "map_result convert_record items = Inr ys"
      using convert_all_total by blast
    show ?thesis
      using Cons.IH[OF ok] JArr ys kv
      by (cases "k \<in> selected_ids") simp_all
  qed (use Cons.IH[OF ok] kv in \<open>simp_all\<close>)
qed

lemma count_records_Cons:
  "count_records ((k, v) # d) = (case v of JArr items \<Rightarrow> length items | _ \<Rightarrow> 0) + count_records d"
  by (simp add: count_records_def)

lemma count_records_Nil: "count_records [] = 0"
  by (simp add: count_records_def)

lemma count_records_append: "count_records (a @ b) = count_records a + count_records b"
  by (simp add: count_records_def)

lemma count_routed1:
  assumes "case v of JArr items \<Rightarrow> list_all is_dict items | _ \<Rightarrow> True"
  shows "count_records (routed1 P (k, v)) + count_records (routed1 (\<lambda>k. \<not> P k) (k, v))
           = (case v of JArr items \<Rightarrow> length items | _ \<Rightarrow> 0)"
proof (cases v)
  case (JArr items)
  with assms have "list_all is_dict items" by simp
  then obtain ys where ys: "map_result convert_record items = Inr ys"
    using convert_all_total by blast
  with JArr map_result_length[OF ys] show ?thesis
    by (cases "P k") (simp_all add: routed1_def count_records_Cons count_records_Nil)
qed (simp_all add: routed1_def count_records_Nil)

lemma count_routed:
  "records_ok d \<Longrightarrow>
     count_records (routed P d) + count_records (routed (\<lambda>k. \<not> P k) d) = count_records d"
proof (induction d)
  case Nil
  then show ?case by (simp add: count_records_Nil routed_Nil)
next
  case (Cons kv d)
  obtain k v where kv: "kv = (k, v)" by (cases kv)
  from Cons.prems have ok: "records_ok d" by (simp add: records_ok_def)
  from Cons.prems kv have okv: "case v of JArr items \<Rightarrow> list_all is_dict items | _ \<Rightarrow> True"
    by (simp add: records_ok_def)
  from Cons.IH[OF ok] count_routed1[OF okv, of P k] show ?case
    by (simp add: kv routed_Cons count_records_append count_records_Cons)
qed

lemma map_of_routed_notin: "k \<notin> fst ` set d \<Longrightarrow> map_of (routed P d) k = None"
  using routed_keys[of P d] by (auto simp: map_of_eq_None_iff)

lemma map_of_routed:
  "distinct (map fst d) \<Longrightarrow> (k, v) \<in> set d \<Longrightarrow> map_of (routed P d) k = map_of (routed1 P (k, v)) k"
proof (induction d)
  case Nil
  then show ?case by simp
next
  case (Cons kv d)
  show ?case
  proof (cases "kv = (k, v)")
    case True
    with Cons.prems have "k \<notin> fst ` set d" by auto
    then have "map_of (routed P d) k = None" by (rule map_of_routed_notin)
    with True show ?thesis
      by (simp add: routed_Cons map_add_def map_of_append split: option.split)
  next
    case False
    with Cons.prems have mem: "(k, v) \<in> set d" and d: "distinct (map fst d)" by auto
    with Cons.prems have "fst kv \<noteq> k" by (auto simp: rev_image_eqI)
    with routed1_keys[of P kv] have "k \<notin> fst ` set (routed1 P kv)" by auto
    then have "map_of (routed1 P kv) k = None" by (simp add: map_of_eq_None_iff)
    with Cons.IH[OF d mem] show ?thesis
      by (simp add: routed_Cons map_add_def map_of_append)
  qed
qed

lemma map_result_convert_fails:
  "\<not> list_all is_dict items \<Longrightarrow> map_result convert_record items = Inl AttributeError"
proof (induction items)
  case Nil
  then show ?case by simp
next
  case (Cons x items)
  show ?case
  proof (cases x)
    case (JObj r)
    with Cons show ?thesis by (simp add: convert_record_eq)
  qed (simp_all add: convert_record_def)
qed

lemma process_loop_fails:
  "\<not> records_ok d \<Longrightarrow> process_loop d sel oth = Inl AttributeError"
proof (induction d arbitrary: sel oth)
  case Nil
  then show ?case by (simp add: records_ok_def)
next
  case (Cons kv d)
  obtain k v where kv: "kv = (k, v)" by (cases kv)
  show ?case
  proof (cases v)
    case (JArr items)
    show ?thesis
    proof (cases "list_all is_dict items")
      case True
      with Cons.prems kv JArr have nok: "\<not> records_ok d" by (simp add: records_ok_def)
      from True obtain ys where ys: "map_result convert_record items = Inr ys"
        using convert_all_total by blast
      show ?thesis
        using Cons.IH[OF nok] JArr ys kv by (cases "k \<in> selected_ids") simp_all
    next
      case False
      with JArr kv show ?thesis by (simp add: map_result_convert_fails)
    qed
  qed (use Cons kv in \<open>simp_all add: records_ok_def\<close>)
qed

lemma process_loop_ok: "process_loop d sel oth = Inr r \<Longrightarrow> records_ok d"
  using process_loop_fails[of d sel oth] by (cases "records_ok d") simp_all

lemma records_ok_item:
  "records_ok d \<Longrightarrow> (k, JArr items) \<in> set d \<Longrightarrow> list_all is_dict items"
  by (auto simp: records_ok_def list_all_iff)

lemma process_data_routed:
  assumes "distinct (map fst d)" "process_data (JObj d) = Inr (JObj selected, JObj others)"
  shows "selected = routed (\<lambda>k. k \<in> selected_ids) d" "others = routed (\<lambda>k. k \<notin> selected_ids) d"
    "records_ok d"
proof -
  from assms(2) have loop: "process_loop d [] [] = Inr (selected, others)"
    by (simp add: process_data_def split: sum.splits prod.splits)
  from process_loop_routed[OF assms(1) _ _ loop]
  show "selected = routed (\<lambda>k. k \<in> selected_ids) d" "others = routed (\<lambda>k. k \<notin> selected_ids) d"
    by simp_all
  from loop show "records_ok d" by (rule process_loop_ok)
qed

lemma process_data_total:
  "records_ok d \<Longrightarrow> \<exists>selected others. process_data (JObj d) = Inr (JObj selected, JObj others)"
  using process_loop_total[of d "[]" "[]"] by (auto simp: process_data_def)

lemma process_data_fails:
  "\<not> records_ok d \<Longrightarrow> process_data (JObj d) = Inl AttributeError"
  by (simp add: process_data_def process_loop_fails)

lemma routed1_not_list: "\<not> is_list v \<Longrightarrow> routed1 P (k, v) = []"
  by (cases v) (simp_all add: routed1_def)

lemma routed1_list:
  "map_result convert_record items = Inr converted \<Longrightarrow>
     routed1 P (k, JArr items) = (if P k then [(k, JArr converted)] else [])"
  by (simp add: routed1_def)

text \<open>
  Claim C3. When \<^verbatim>\<open>process\<close> produces its two outputs from a dataset, the records of
  "selected" and of "others" together are as many as the input records under the identifiers
  whose value is a list, and an identifier whose value is not a list is a key of neither
  output. (The outputs exist exactly when every element of every list value is an object:
  \<open>process_data_total\<close>, \<open>process_data_fails\<close>.)
\<close>

theorem converter_record_count:
  assumes "distinct (map fst d)"
    and "process_data (JObj d) = Inr (JObj selected, JObj others)"
  shows "count_records selected + count_records others = count_records d
     \<and> (\<forall>k v. (k, v) \<in> set d \<and> \<not> is_list v \<longrightarrow>
           k \<notin> fst ` set selected \<and> k \<notin> fst ` set others)"
proof -
  note r = process_data_routed[OF assms]
  have "count_records (routed (\<lambda>k. k \<in> selected_ids) d)
      + count_records (routed (\<lambda>k. \<not> k \<in> selected_ids) d) = count_records d"
    using r(3) by (rule count_routed)
  then have count: "count_records selected + count_records others = count_records d"
    using r(1,2) by simp
  have "k \<notin> fst ` set selected \<and> k \<notin> fst ` set others"
    if "(k, v) \<in> set d" "\<not> is_list v" for k v
  proof -
    have "map_of (routed P d) k = None" for P
      using map_of_routed[OF assms(1) that(1), of P] routed1_not_list[OF that(2)] by simp
    then show ?thesis
      using r(1,2) by (simp add: map_of_eq_None_iff)
  qed
  with count show ?thesis by blast
qed

lemma example_converted:
  "process_data (JObj example_dataset) =
     Inr (JObj [(''10000'', JArr [JObj [(''question'', JStr ''Q1''), (''fact'', JStr ''fact1''),
                                        (''name'', JNull)]]),
                (''10001'', JArr [])],
          JObj [(''20000'', JArr [JObj [(''question'', JStr ''Q2''), (''fact'', JNull),
                                        (''name'', JNull)]])])"
  by (simp add: process_data_def example_dataset_def convert_record_eq spec_fact_def get_def
      get_default_def selected_ids_eq)

lemma example_distinct: "distinct (map fst example_dataset)"
  by (simp add: example_dataset_def)

theorem converter_record_count_witness:
  "distinct (map fst example_dataset)
   \<and> process_data (JObj example_dataset) =
     Inr (JObj [(''10000'', JArr [JObj [(''question'', JStr ''Q1''), (''fact'', JStr ''fact1''),
                                        (''name'', JNull)]]),
                (''10001'', JArr [])],
          JObj [(''20000'', JArr [JObj [(''question'', JStr ''Q2''), (''fact'', JNull),
                                        (''name'', JNull)]])])
   \<and> count_records [(''10000'', JArr [JObj [(''question'', JStr ''Q1''), (''fact'', JStr ''fact1''),
                                        (''name'', JNull)]]),
                (''10001'', JArr [])]
     + count_records [(''20000'', JArr [JObj [(''question'', JStr ''Q2''), (''fact'', JNull),
                                        (''name'', JNull)]])]
     = count_records example_dataset
   \<and> count_records example_dataset = 2"
  using converter_record_count[OF example_distinct example_converted] example_distinct
    example_converted
  by (simp add: count_records_def example_dataset_def)

lemma process_loop_skip_non_lists:
  "process_loop (filter (\<lambda>kv. is_list (snd kv)) d) sel oth = process_loop d sel oth"
proof (induction d arbitrary: sel oth)
  case Nil
  then show ?case by simp
next
  case (Cons kv d)
  obtain k v where kv: "kv = (k, v)" by (cases kv)
  show ?case
  proof (cases v)
    case (JArr items)
    show ?thesis
    proof (cases "map_result convert_record items")
      case (Inl e)
      with JArr kv show ?thesis by simp
    next
      case (Inr converted)
      with JArr kv Cons.IH show ?thesis by (cases "k \<in> selected_ids") simp_all
    qed
  qed (use Cons.IH kv in \<open>simp_all\<close>)
qed

lemma map_of_routed_list:
  assumes "distinct (map fst d)" "(k, JArr items) \<in> set d"
    and "map_result convert_record items = Inr converted"
  shows "map_of (routed P d) k = (if P k then Some (JArr converted) else None)"
  using map_of_routed[OF assms(1,2), of P] routed1_list[OF assms(3), of P k] by simp

text \<open>
  Claim C4. The identifiers whose value is not a list have no effect on what \<^verbatim>\<open>process\<close>
  computes: no error comes from them. When the two outputs are produced, a list-valued
  identifier among "10000", ..., "10009" is mapped to its converted records in "selected" and
  is no key of "others", any other list-valued identifier is mapped to its converted records
  in "others" and is no key of "selected", and an identifier whose value is not a list is a key
  of neither.
\<close>

theorem converter_routing:
  "process_data (JObj (filter (\<lambda>kv. is_list (snd kv)) d)) = process_data (JObj d)
   \<and> (distinct (map fst d) \<and> process_data (JObj d) = Inr (JObj selected, JObj others) \<longrightarrow>
        (\<forall>k items. (k, JArr items) \<in> set d \<longrightarrow>
           (\<exists>converted. map_result convert_record items = Inr converted
              \<and> (if k \<in> {''10000'', ''10001'', ''10002'', ''10003'', ''10004'', ''10005'',
                           ''10006'', ''10007'', ''10008'', ''10009''}
                  then map_of selected k = Some (JArr converted) \<and> map_of others k = None
                  else map_of others k = Some (JArr converted) \<and> map_of selected k = None)))
        \<and> (\<forall>k v. (k, v) \<in> set d \<and> \<not> is_list v \<longrightarrow>
              map_of selected k = None \<and> map_of others k = None))"
proof (intro conjI impI)
  show "process_data (JObj (filter (\<lambda>kv. is_list (snd kv)) d)) = process_data (JObj d)"
    by (simp add: process_data_def process_loop_skip_non_lists)
next
  assume a: "distinct (map fst d) \<and> process_data (JObj d) = Inr (JObj selected, JObj others)"
  then have dist: "distinct (map fst d)"
    and ok: "process_data (JObj d) = Inr (JObj selected, JObj others)" by simp_all
  note r = process_data_routed[OF dist ok]
  show "\<forall>k items. (k, JArr items) \<in> set d \<longrightarrow>
           (\<exists>converted. map_result convert_record items = Inr converted
              \<and> (if k \<in> {''10000'', ''10001'', ''10002'', ''10003'', ''10004'', ''10005'',
                           ''10006'', ''10007'', ''10008'', ''10009''}
                  then map_of selected k = Some (JArr converted) \<and> map_of others k = None
                  else map_of others k = Some (JArr converted) \<and> map_of selected k = None))"
  proof (intro allI impI)
    fix k items
    assume mem: "(k, JArr items) \<in> set d"
    from records_ok_item[OF r(3) mem] obtain converted
      where c: "map_result convert_record items = Inr converted"
      using convert_all_total by blast
    have s: "map_of selected k = (if k \<in> selected_ids then Some (JArr converted) else None)"
      unfolding r(1) by (rule map_of_routed_list[OF dist mem c])
    have o: "map_of others k = (if k \<notin> selected_ids then Some (JArr converted) else None)"
      unfolding r(2) by (rule map_of_routed_list[OF dist mem c])
    show "\<exists>converted. map_result convert_record items = Inr converted
              \<and> (if k \<in> {''10000'', ''10001'', ''10002'', ''10003'', ''10004'', ''10005'',
                           ''10006'', ''10007'', ''10008'', ''10009''}
                  then map_of selected k = Some (JArr converted) \<and> map_of others k = None
                  else map_of others k = Some (JArr converted) \<and> map_of selected k = None)"
      using c s o unfolding selected_ids_eq[symmetric] by (intro exI[of _ converted]) simp
  qed
  show "\<forall>k v. (k, v) \<in> set d \<and> \<not> is_list v \<longrightarrow> map_of selected k = None \<and> map_of others k = None"
  proof (intro allI impI)
    fix k v
    assume "(k, v) \<in> set d \<and> \<not> is_list v"
    then have mem: "(k, v) \<in> set d" and nl: "\<not> is_list v" by simp_all
    have "map_of (routed P d) k = None" for P
      using map_of_routed[OF dist mem, of P] routed1_not_list[OF nl] by simp
    then show "map_of selected k = None \<and> map_of others k = None"
      using r(1,2) by simp
  qed
qed

theorem converter_routing_witness:
  "process_data (JObj (filter (\<lambda>kv. is_list (snd kv)) example_dataset))
     = process_data (JObj example_dataset)
   \<and> distinct (map fst example_dataset)
   \<and> process_data (JObj example_dataset) =
     Inr (JObj [(''10000'', JArr [JObj [(''question'', JStr ''Q1''), (''fact'', JStr ''fact1''),
                                        (''name'', JNull)]]),
                (''10001'', JArr [])],
          JObj [(''20000'', JArr [JObj [(''question'', JStr ''Q2''), (''fact'', JNull),
                                        (''name'', JNull)]])])
   \<and> (''30000'', JStr ''note'') \<in> set example_dataset
   \<and> map_of [(''10000'', JArr [JObj [(''question'', JStr ''Q1''), (''fact'', JStr ''fact1''),
                                        (''name'', JNull)]]),
                (''10001'', JArr [])] ''30000'' = None
   \<and> map_of [(''20000'', JArr [JObj [(''question'', JStr ''Q2''), (''fact'', JNull),
                                        (''name'', JNull)]])] ''30000'' = None"
  using converter_routing[of example_dataset
      "[(''10000'', JArr [JObj [(''question'', JStr ''Q1''), (''fact'', JStr ''fact1''),
                                        (''name'', JNull)]]),
                (''10001'', JArr [])]"
      "[(''20000'', JArr [JObj [(''question'', JStr ''Q2''), (''fact'', JNull),
                                        (''name'', JNull)]])]"]
    example_distinct example_converted
  by (simp add: example_dataset_def)

section \<open>The first loop of the Splitter\<close>

lemma transform_all_survivors:
  "distinct ids \<Longrightarrow> set ids \<inter> fst ` set acc = {} \<Longrightarrow> transform_all ids d acc = Inr t \<Longrightarrow>
     t = acc @ map (new_entry d) (filter (survives d) ids)"
proof (induction ids arbitrary: acc)
  case Nil
  then show ?case by simp
next
  case (Cons pid ids)
  have fresh: "pid \<notin> fst ` set acc" "pid \<notin> set ids" and dist: "distinct ids"
    using Cons.prems by auto
  show ?case
  proof (cases "new_items_of (get d pid)")
    case (Inl e)
    with Cons.prems(3) show ?thesis by simp
  next
    case (Inr ys)
    show ?thesis
    proof (cases "ys = []")
      case True
      with Inr Cons.prems have "transform_all ids d acc = Inr t" "set ids \<inter> fst ` set acc = {}"
        by auto
      from Cons.IH[OF dist this(2,1)] Inr True show ?thesis
        by (simp add: survives_def)
    next
      case False
      with Inr Cons.prems(3)
      have step: "transform_all ids d (acc @ [(pid, JArr ys)]) = Inr t"
        by (simp add: update_fresh[OF fresh(1)])
      have "set ids \<inter> fst ` set (acc @ [(pid, JArr ys)]) = {}"
        using Cons.prems(2) fresh(2) by auto
      from Cons.IH[OF dist this step] Inr False show ?thesis
        by (simp add: survives_def new_entry_def)
    qed
  qed
qed

lemma transform_all_get_cong:
  "(\<And>k. get d1 k = get d2 k) \<Longrightarrow> transform_all ids d1 acc = transform_all ids d2 acc"
  by (induction ids arbitrary: acc) (simp_all split: sum.split)

lemma map_of_new_entries:
  "map_of (map (new_entry d) ids) pid = (if pid \<in> set ids then Some (snd (new_entry d pid)) else None)"
  by (induction ids) (simp_all add: new_entry_def)

lemma filtered_ids_survivors:
  assumes "distinct ids" "transform_all ids d [] = Inr t"
  shows "filtered_ids_of ids t = filter (survives d) ids"
proof -
  from transform_all_survivors[OF assms(1) _ assms(2)]
  have t: "t = map (new_entry d) (filter (survives d) ids)" by simp
  show ?thesis
    unfolding filtered_ids_of_def t map_of_new_entries
    by (rule filter_cong) simp_all
qed

section \<open>Round-robin sharding\<close>

lemma positions_Cons:
  "map (nth (x # xs)) (filter (\<lambda>i. (idx + i) mod n = b) [0..<Suc (length xs)])
     = (if idx mod n = b then [x] else [])
       @ map (nth xs) (filter (\<lambda>i. (Suc idx + i) mod n = b) [0..<length xs])"
proof -
  have "[0..<Suc (length xs)] = 0 # map Suc [0..<length xs]"
    by (simp add: upt_conv_Cons map_Suc_upt del: upt_Suc)
  then show ?thesis
    by (simp add: filter_map comp_def del: upt_Suc)
qed

lemma shard_loop_positions:
  assumes "0 < n" "length buckets = n"
  shows "shard_loop idx ids (int n) buckets =
           Inr (map (\<lambda>b. buckets ! b
                  @ map (nth ids) (filter (\<lambda>i. (idx + i) mod n = b) [0..<length ids])) [0..<n])"
  using assms(2)
proof (induction ids arbitrary: idx buckets)
  case Nil
  have "map ((!) buckets) [0..<length buckets] = buckets" by (rule map_nth)
  with Nil show ?case by simp
next
  case (Cons pid ids)
  let ?j = "idx mod n"
  have j: "int idx mod int n = int ?j" "?j < n"
    using assms(1) by (simp_all add: zmod_int)
  have len: "length (buckets[?j := buckets ! ?j @ [pid]]) = n"
    using Cons.prems by simp
  have step: "shard_loop idx (pid # ids) (int n) buckets
      = shard_loop (Suc idx) ids (int n) (buckets[?j := buckets ! ?j @ [pid]])"
    using assms(1) j Cons.prems by (simp add: Let_def)
  have "map (\<lambda>b. (buckets[?j := buckets ! ?j @ [pid]]) ! b
                  @ map (nth ids) (filter (\<lambda>i. (Suc idx + i) mod n = b) [0..<length ids])) [0..<n]
      = map (\<lambda>b. buckets ! b
                  @ map (nth (pid # ids)) (filter (\<lambda>i. (idx + i) mod n = b) [0..<length (pid # ids)]))
          [0..<n]"
  proof (rule map_cong[OF refl])
    fix b assume "b \<in> set [0..<n]"
    then have b: "b < length buckets" using Cons.prems by simp
    show "(buckets[?j := buckets ! ?j @ [pid]]) ! b
                  @ map (nth ids) (filter (\<lambda>i. (Suc idx + i) mod n = b) [0..<length ids])
        = buckets ! b
                  @ map (nth (pid # ids)) (filter (\<lambda>i. (idx + i) mod n = b) [0..<length (pid # ids)])"
      using b by (simp add: positions_Cons nth_list_update del: upt_Suc)
  qed
  with Cons.IH[OF len, of "Suc idx"] step show ?case by simp
qed

lemma shard_ids_round_robin:
  assumes "1 \<le> n"
  shows "shard_ids ids n = Inr (map (round_robin ids (nat n)) [0..<nat n])"
proof -
  have n: "0 < nat n" "int (nat n) = n" using assms by simp_all
  have "shard_loop 0 ids (int (nat n)) (replicate (nat n) [])
      = Inr (map (\<lambda>b. replicate (nat n) [] ! b
               @ map (nth ids) (filter (\<lambda>i. (0 + i) mod nat n = b) [0..<length ids])) [0..<nat n])"
    by (rule shard_loop_positions[OF n(1)]) simp
  also have "map (\<lambda>b. replicate (nat n) [] ! b
               @ map (nth ids) (filter (\<lambda>i. (0 + i) mod nat n = b) [0..<length ids])) [0..<nat n]
      = map (round_robin ids (nat n)) [0..<nat n]"
    by (rule map_cong[OF refl]) (simp add: round_robin_def)
  finally show ?thesis
    unfolding shard_ids_def n(2) .
qed

lemma round_robin_subset: "set (round_robin ids n b) \<subseteq> set ids"
  by (auto simp: round_robin_def)

lemma round_robin_distinct: "distinct ids \<Longrightarrow> distinct (round_robin ids n b)"
  by (auto simp: round_robin_def distinct_map inj_on_def nth_eq_iff_index_eq)

lemma round_robin_mem:
  "idx < length ids \<Longrightarrow> ids ! idx \<in> set (round_robin ids n (idx mod n))"
  by (auto simp: round_robin_def)

lemma round_robin_disjoint:
  assumes "distinct ids" "b \<noteq> c"
  shows "set (round_robin ids n b) \<inter> set (round_robin ids n c) = {}"
proof -
  have False if "i < length ids" "j < length ids" "ids ! i = ids ! j" "i mod n = b" "j mod n = c"
    for i j
    using that assms by (simp add: nth_eq_iff_index_eq)
  then show ?thesis
    by (auto simp: round_robin_def)
qed

lemma round_robin_union:
  assumes "0 < n"
  shows "(\<Union>b\<in>{0..<n}. set (round_robin ids n b)) = set ids"
proof
  show "(\<Union>b\<in>{0..<n}. set (round_robin ids n b)) \<subseteq> set ids"
    using round_robin_subset by fastforce
  show "set ids \<subseteq> (\<Union>b\<in>{0..<n}. set (round_robin ids n b))"
  proof
    fix x assume "x \<in> set ids"
    then obtain idx where idx: "idx < length ids" "ids ! idx = x"
      by (auto simp: in_set_conv_nth)
    have "idx mod n \<in> {0..<n}" using assms by simp
    with round_robin_mem[OF idx(1), of n] idx(2)
    show "x \<in> (\<Union>b\<in>{0..<n}. set (round_robin ids n b))" by blast
  qed
qed

section \<open>The names of the shard files\<close>

lemma digit_value_digit_char: "d < 10 \<Longrightarrow> digit_value (digit_char d) = d"
  by (auto simp: numeral_eq_Suc less_Suc_eq digit_char_def digit_value_def)

lemma digits_value_snoc: "digits_value (cs @ [c]) = 10 * digits_value cs + digit_value c"
  by (simp add: digits_value_def)

lemma digits_value_str_nat: "digits_value (str_nat n) = n"
proof (induction n rule: str_nat.induct)
  case (1 n)
  show ?case
  proof (cases "n < 10")
    case True
    then have "str_nat n = [digit_char n]" by (rule str_nat_small)
    with True show ?thesis
      by (simp add: digits_value_def digit_value_digit_char)
  next
    case False
    then have s: "str_nat n = str_nat (n div 10) @ [digit_char (n mod 10)]"
      by (intro str_nat_step) simp
    have "digits_value (str_nat (n div 10)) = n div 10" using 1 False by simp
    then have "digits_value (str_nat n) = 10 * (n div 10) + n mod 10"
      unfolding s digits_value_snoc by (simp add: digit_value_digit_char)
    then show ?thesis by simp
  qed
qed

lemma digit_value_zero: "digit_value (CHR ''0'') = 0"
  by (simp add: digit_value_def)

lemma digits_value_Cons_zero: "digits_value (CHR ''0'' # cs) = digits_value cs"
  unfolding digits_value_def foldl_Cons digit_value_zero by simp

lemma digits_value_zeros: "digits_value (replicate k (CHR ''0'') @ cs) = digits_value cs"
proof (induction k)
  case 0
  show ?case by simp
next
  case (Suc k)
  have "replicate (Suc k) (CHR ''0'') @ cs = CHR ''0'' # (replicate k (CHR ''0'') @ cs)"
    by simp
  then show ?case
    using Suc by (simp only: digits_value_Cons_zero)
qed

lemma digits_value_zero_pad: "digits_value (zero_pad width i) = i"
  unfolding zero_pad_def digits_value_zeros by (rule digits_value_str_nat)

lemma zero_pad_inj:
  assumes "zero_pad width i = zero_pad width j"
  shows "i = j"
proof -
  have "i = digits_value (zero_pad width i)" by (simp only: digits_value_zero_pad)
  also have "\<dots> = digits_value (zero_pad width j)" by (simp only: assms)
  also have "\<dots> = j" by (simp only: digits_value_zero_pad)
  finally show ?thesis .
qed

lemma path_join_relative: "b \<noteq> [] \<Longrightarrow> hd b \<noteq> CHR ''/'' \<Longrightarrow>
    path_join a b = a @ (if a = [] \<or> last a = CHR ''/'' then [] else ''/'') @ b"
  by (simp add: path_join_def)

lemma shard_path_eq:
  "shard_path dir width i
     = dir @ (if dir = [] \<or> last dir = CHR ''/'' then [] else ''/'')
         @ ''split_'' @ zero_pad width i @ ''.json''"
  unfolding shard_path_def by (subst path_join_relative) simp_all

lemma shard_path_inj:
  assumes "shard_path dir width i = shard_path dir width j"
  shows "i = j"
proof -
  from assms have "zero_pad width i = zero_pad width j"
    unfolding shard_path_eq by simp
  then show ?thesis by (rule zero_pad_inj)
qed

lemma length_str_nat_pos: "0 < length (str_nat n)"
  by (subst str_nat.simps) simp

lemma length_str_nat_mono: "k \<le> n \<Longrightarrow> length (str_nat k) \<le> length (str_nat n)"
proof (induction n arbitrary: k rule: str_nat.induct)
  case (1 n)
  show ?case
  proof (cases "n < 10")
    case True
    with "1.prems" have "k < 10" by simp
    with True show ?thesis by (simp add: str_nat_small)
  next
    case False
    note big = this
    then have sn: "str_nat n = str_nat (n div 10) @ [digit_char (n mod 10)]"
      by (intro str_nat_step) simp
    show ?thesis
    proof (cases "k < 10")
      case True
      with length_str_nat_pos[of "n div 10"] show ?thesis
        unfolding sn by (simp add: str_nat_small)
    next
      case False
      then have sk: "str_nat k = str_nat (k div 10) @ [digit_char (k mod 10)]"
        by (intro str_nat_step) simp
      from "1.prems" have "k div 10 \<le> n div 10" by (rule div_le_mono)
      from "1.IH"[OF big this] show ?thesis
        unfolding sn sk by simp
    qed
  qed
qed

lemma length_zero_pad: "length (zero_pad width i) = max width (length (str_nat i))"
  by (simp add: zero_pad_def)

lemma max_width: "(a::nat) \<le> b \<Longrightarrow> max (max 2 b) a = max 2 b"
  by simp

lemma length_zero_pad_shard:
  assumes "1 \<le> n" "k \<le> nat n"
  shows "length (zero_pad (shard_width n) k) = shard_width n"
proof -
  have mono: "length (str_nat k) \<le> length (str_nat (nat n))"
    using assms(2) by (rule length_str_nat_mono)
  have "str_int n = str_nat (nat n)" using assms(1) by (simp add: str_int_def)
  then have w: "shard_width n = max 2 (length (str_nat (nat n)))" by (simp only: shard_width_def)
  show ?thesis
    unfolding length_zero_pad w by (rule max_width[OF mono])
qed

section \<open>The shard files\<close>

lemma shard_dict_loop_entries:
  "distinct bucket \<Longrightarrow> set bucket \<inter> fst ` set acc = {} \<Longrightarrow>
   (\<And>pid. pid \<in> set bucket \<Longrightarrow> map_of t pid = Some (f pid)) \<Longrightarrow>
   shard_dict_loop t bucket acc = Inr (acc @ map (\<lambda>pid. (pid, f pid)) bucket)"
proof (induction bucket arbitrary: acc)
  case Nil
  then show ?case by simp
next
  case (Cons pid bucket)
  have fresh: "pid \<notin> fst ` set acc" using Cons.prems(2) by auto
  have d: "distinct bucket" and notin: "pid \<notin> set bucket" using Cons.prems(1) by simp_all
  have disj: "set bucket \<inter> fst ` set (acc @ [(pid, f pid)]) = {}"
    using Cons.prems(2) notin by auto
  have look: "map_of t pid = Some (f pid)" using Cons.prems(3) by simp
  have "shard_dict_loop t bucket (acc @ [(pid, f pid)])
      = Inr ((acc @ [(pid, f pid)]) @ map (\<lambda>pid. (pid, f pid)) bucket)"
    by (rule Cons.IH[OF d disj]) (simp add: Cons.prems(3))
  then show ?case
    by (simp add: look update_fresh[OF fresh])
qed

lemma shard_dict_entries:
  assumes "distinct bucket" "set bucket \<subseteq> set ids"
  shows "shard_dict (map (new_entry d) ids) bucket = Inr (map (new_entry d) bucket)"
proof -
  have "shard_dict_loop (map (new_entry d) ids) bucket []
      = Inr ([] @ map (\<lambda>pid. (pid, snd (new_entry d pid))) bucket)"
  proof (rule shard_dict_loop_entries[OF assms(1)])
    show "set bucket \<inter> fst ` set [] = {}" by simp
    fix pid assume "pid \<in> set bucket"
    with assms(2) show "map_of (map (new_entry d) ids) pid = Some (snd (new_entry d pid))"
      by (auto simp: map_of_new_entries)
  qed
  moreover have "(\<lambda>pid. (pid, snd (new_entry d pid))) = new_entry d"
    by (simp add: new_entry_def fun_eq_iff)
  ultimately show ?thesis by (simp add: shard_dict_def)
qed

lemma dump_json_files:
  "files (dump_json p v s) q = (if q = p then Some v else files s q)"
  "dirs (dump_json p v s) = dirs s"
  by (simp_all add: dump_json_def)

lemma write_shards_files:
  assumes "\<And>b. b \<in> set buckets \<Longrightarrow> shard_dict t b = Inr (f b)"
  shows "\<exists>s'. write_shards dir w i buckets t s = (None, s') \<and> dirs s' = dirs s
     \<and> (\<forall>j<length buckets. files s' (shard_path dir w (i + j)) = Some (JObj (f (buckets ! j))))
     \<and> (\<forall>p. (\<forall>j<length buckets. p \<noteq> shard_path dir w (i + j)) \<longrightarrow> files s' p = files s p)"
  using assms
proof (induction buckets arbitrary: i s)
  case Nil
  then show ?case by simp
next
  case (Cons b buckets)
  let ?s1 = "dump_json (shard_path dir w i) (JObj (f b)) s"
  have sd: "shard_dict t b = Inr (f b)" using Cons.prems by simp
  from Cons.IH[of "Suc i" ?s1] Cons.prems
  obtain s' where s': "write_shards dir w (Suc i) buckets t ?s1 = (None, s')"
    "dirs s' = dirs ?s1"
    "\<And>j. j < length buckets \<Longrightarrow>
        files s' (shard_path dir w (Suc i + j)) = Some (JObj (f (buckets ! j)))"
    "\<And>p. (\<forall>j<length buckets. p \<noteq> shard_path dir w (Suc i + j)) \<Longrightarrow> files s' p = files ?s1 p"
    by auto
  have run: "write_shards dir w i (b # buckets) t s = (None, s')"
    using sd s'(1) by simp
  have first: "files s' (shard_path dir w i) = Some (JObj (f b))"
  proof -
    have "\<forall>j<length buckets. shard_path dir w i \<noteq> shard_path dir w (Suc i + j)"
      by (auto dest: shard_path_inj)
    from s'(4)[OF this] show ?thesis by (simp add: dump_json_files)
  qed
  have hit: "files s' (shard_path dir w (i + j)) = Some (JObj (f ((b # buckets) ! j)))"
    if "j < length (b # buckets)" for j
  proof (cases j)
    case 0
    with first show ?thesis by simp
  next
    case (Suc j')
    with that s'(3)[of j'] show ?thesis by simp
  qed
  have miss: "files s' p = files s p"
    if "\<forall>j<length (b # buckets). p \<noteq> shard_path dir w (i + j)" for p
  proof -
    from that have "p \<noteq> shard_path dir w i" by force
    moreover from that have "\<forall>j<length buckets. p \<noteq> shard_path dir w (Suc i + j)" by force
    ultimately show ?thesis using s'(4)[of p] by (simp add: dump_json_files)
  qed
  from run s'(2) hit miss show ?case
    by (auto simp: dump_json_files)
qed

lemma all_ids_distinct: "distinct (map fst d) \<Longrightarrow> distinct (all_ids_of a d)"
  by (simp add: all_ids_of_def)

lemma all_ids_set: "set (all_ids_of a d) = fst ` set d"
  by (simp add: all_ids_of_def)

lemma main_unfold:
  assumes "files s (input a) = Some (JObj d)"
  shows "main a s =
     (case transform_all (all_ids_of a d) d [] of
        Inl e \<Rightarrow> (Some e, ensure_outdir (choose_outdir a) s)
      | Inr transformed \<Rightarrow>
          (case shard_ids (filtered_ids_of (all_ids_of a d) transformed) (num_shards a) of
             Inl e \<Rightarrow> (Some e, ensure_outdir (choose_outdir a) s)
           | Inr buckets \<Rightarrow>
               write_shards (choose_outdir a) (shard_width (num_shards a)) 1 buckets transformed
                 (ensure_outdir (choose_outdir a) s)))"
  using assms by (simp add: main_def load_json_def Let_def)

lemma main_transformed:
  assumes "files s (input a) = Some (JObj d)" "distinct (map fst d)" "main a s = (None, s')"
  shows "transform_all (all_ids_of a d) d [] = Inr (map (new_entry d) (survivors a d))"
    and "filtered_ids_of (all_ids_of a d) (map (new_entry d) (survivors a d)) = survivors a d"
proof -
  obtain t where t: "transform_all (all_ids_of a d) d [] = Inr t"
    using assms(3) unfolding main_unfold[OF assms(1)]
    by (cases "transform_all (all_ids_of a d) d []") simp_all
  from transform_all_survivors[OF all_ids_distinct[OF assms(2)] _ t]
  have "t = map (new_entry d) (survivors a d)" by (simp add: survivors_def)
  with t show 1: "transform_all (all_ids_of a d) d [] = Inr (map (new_entry d) (survivors a d))"
    by simp
  from filtered_ids_survivors[OF all_ids_distinct[OF assms(2)] 1]
  show "filtered_ids_of (all_ids_of a d) (map (new_entry d) (survivors a d)) = survivors a d"
    by (simp add: survivors_def)
qed

lemma survivors_distinct: "distinct (map fst d) \<Longrightarrow> distinct (survivors a d)"
  by (simp add: survivors_def all_ids_distinct)

lemma main_shards:
  assumes "files s (input a) = Some (JObj d)" "distinct (map fst d)" "1 \<le> num_shards a"
    and "main a s = (None, s')"
  shows "dirs s' = insert (choose_outdir a) (dirs s)"
    and "\<And>k. 1 \<le> k \<Longrightarrow> k \<le> nat (num_shards a) \<Longrightarrow>
           files s' (shard_file a k) = Some (JObj (shard_of a d k))"
    and "\<And>p. (\<forall>k. 1 \<le> k \<and> k \<le> nat (num_shards a) \<longrightarrow> p \<noteq> shard_file a k) \<Longrightarrow>
           files s' p = files s p"
proof -
  let ?n = "nat (num_shards a)"
  let ?surv = "survivors a d"
  let ?t = "map (new_entry d) ?surv"
  let ?buckets = "map (round_robin ?surv ?n) [0..<?n]"
  let ?s1 = "ensure_outdir (choose_outdir a) s"
  note tr = main_transformed[OF assms(1,2,4)]
  have sh: "shard_ids ?surv (num_shards a) = Inr ?buckets"
    by (rule shard_ids_round_robin[OF assms(3)])
  have run: "main a s = write_shards (choose_outdir a) (shard_width (num_shards a)) 1 ?buckets ?t ?s1"
    unfolding main_unfold[OF assms(1)] by (simp add: tr sh)
  have sd: "shard_dict ?t b = Inr (map (new_entry d) b)" if "b \<in> set ?buckets" for b
  proof -
    from that obtain i where "b = round_robin ?surv ?n i" by auto
    then show ?thesis
      using shard_dict_entries[of b ?surv d] round_robin_subset[of ?surv ?n i]
        round_robin_distinct[OF survivors_distinct[OF assms(2)], of a ?n i]
      by simp
  qed
  from write_shards_files[of ?buckets ?t "map (new_entry d)" "choose_outdir a"
      "shard_width (num_shards a)" 1 ?s1, OF sd] run assms(4)
  have w: "dirs s' = dirs ?s1"
    "\<And>j. j < length ?buckets \<Longrightarrow>
       files s' (shard_path (choose_outdir a) (shard_width (num_shards a)) (1 + j))
         = Some (JObj (map (new_entry d) (?buckets ! j)))"
    "\<And>p. (\<forall>j<length ?buckets. p \<noteq> shard_path (choose_outdir a) (shard_width (num_shards a)) (1 + j))
       \<Longrightarrow> files s' p = files ?s1 p"
    by auto
  from w(1) show "dirs s' = insert (choose_outdir a) (dirs s)"
    by (simp add: ensure_outdir_def)
  show "files s' (shard_file a k) = Some (JObj (shard_of a d k))"
    if "1 \<le> k" "k \<le> ?n" for k
  proof -
    from that have j: "k - 1 < length ?buckets" "1 + (k - 1) = k" by simp_all
    from w(2)[OF j(1)] j show ?thesis
      by (simp add: shard_file_def shard_of_def)
  qed
  show "files s' p = files s p"
    if "\<forall>k. 1 \<le> k \<and> k \<le> ?n \<longrightarrow> p \<noteq> shard_file a k" for p
  proof -
    have "\<forall>j<length ?buckets. p \<noteq> shard_path (choose_outdir a) (shard_width (num_shards a)) (1 + j)"
      using that by (simp add: shard_file_def)
    from w(3)[OF this] show ?thesis by (simp add: ensure_outdir_def)
  qed
qed

lemma shard_file_inj: "shard_file a j = shard_file a k \<Longrightarrow> j = k"
  unfolding shard_file_def by (rule shard_path_inj)

section \<open>An example run of the Splitter\<close>

lemmas run_simps =
  main_def load_json_def example_args_def example_fs_def example_people_def
  example_mcq_def Let_def choose_outdir_def ensure_outdir_def all_ids_of_def
  less_eq_char_def less_char_def new_items_of_def transform_items_def get_def get_default_def
  filtered_ids_of_def shard_ids_def shard_width_def str_int_def str_nat_small str_nat_step
  digit_char_def shard_dict_def dump_json_def shard_path_def path_join_def zero_pad_def
  numeral_2_eq_2

lemma example_run_ok: "fst (main example_args example_fs) = None"
  by (simp add: run_simps)

lemma example_run: "main example_args example_fs = (None, snd (main example_args example_fs))"
  using example_run_ok by (simp add: prod_eq_iff)

lemma example_input: "files example_fs (input example_args) = Some (JObj example_people)"
  by (simp add: example_fs_def example_args_def)

lemma example_people_distinct: "distinct (map fst example_people)"
  by (simp add: example_people_def)

lemma example_shards: "1 \<le> num_shards example_args"
  by (simp add: example_args_def)

section \<open>More on the shard files\<close>

lemma round_robin_beyond: "length ids \<le> b \<Longrightarrow> round_robin ids n b = []"
proof -
  assume b: "length ids \<le> b"
  have "i mod n \<noteq> b" if "i < length ids" for i
  proof -
    have "i mod n \<le> i" by (rule mod_less_eq_dividend)
    with that b show ?thesis by linarith
  qed
  then show ?thesis
    by (simp add: round_robin_def filter_empty_conv)
qed

lemma new_items_normalize: "new_items_of v = transform_items (normalize v)"
  by (cases v) (simp_all add: new_items_of_def normalize_def transform_items_def)

lemma get_distinct: "distinct (map fst d) \<Longrightarrow> (k, v) \<in> set d \<Longrightarrow> get d k = v"
  by (simp add: get_def get_default_def)

lemma survives_iff:
  "survives d pid \<longleftrightarrow> (\<exists>ys. transform_items (normalize (get d pid)) = Inr ys \<and> ys \<noteq> [])"
  by (simp add: survives_def new_items_normalize split: sum.split)

lemma shard_of_keys:
  "map fst (shard_of a d k) = round_robin (survivors a d) (nat (num_shards a)) (k - 1)"
  by (simp add: shard_of_def new_entry_def comp_def)

lemma write_shards_fst:
  "fst (write_shards dir w i buckets t s) = fst (write_shards dir w i buckets t s0)"
proof (induction buckets arbitrary: i s s0)
  case Nil
  show ?case by simp
next
  case (Cons b buckets)
  show ?case
  proof (cases "shard_dict t b")
    case (Inl e)
    then show ?thesis by simp
  next
    case (Inr sd)
    then show ?thesis
      using Cons.IH[of "Suc i" "dump_json (shard_path dir w i) (JObj sd) s"
          "dump_json (shard_path dir w i) (JObj sd) s0"]
      by simp
  qed
qed

text \<open>
  Claim C8. A run of the Splitter with \<open>N \<ge> 1\<close> shards that completes has created the output
  directory and written the files \<^verbatim>\<open>split_<k>.json\<close> of that directory for \<open>k = 1, ..., N\<close>, and
  no other file: \<open>N\<close> files of different names, where \<open>k\<close> is written in decimal and padded
  with zeros on the left to \<open>max(2, number of digits of N)\<close> characters. Each of them holds a
  JSON object; the shards numbered beyond the number of surviving identifiers have an empty
  bucket and their files hold the empty object.
\<close>

theorem splitter_shard_files:
  assumes "files s (input a) = Some (JObj d)" "distinct (map fst d)" "1 \<le> num_shards a"
    and "main a s = (None, s')"
  shows "dirs s' = insert (choose_outdir a) (dirs s)
     \<and> (\<forall>k. 1 \<le> k \<and> k \<le> nat (num_shards a) \<longrightarrow>
           shard_file a k = path_join (choose_outdir a)
              (''split_'' @ zero_pad (max 2 (length (str_int (num_shards a)))) k @ ''.json'')
         \<and> zero_pad (max 2 (length (str_int (num_shards a)))) k
              = replicate (max 2 (length (str_int (num_shards a))) - length (str_nat k)) (CHR ''0'')
                  @ str_nat k
         \<and> length (zero_pad (max 2 (length (str_int (num_shards a)))) k)
              = max 2 (length (str_int (num_shards a)))
         \<and> (\<exists>sh. files s' (shard_file a k) = Some (JObj sh)
                \<and> (length (survivors a d) < k \<longrightarrow> sh = [])))
     \<and> card (shard_file a ` {1..nat (num_shards a)}) = nat (num_shards a)
     \<and> (\<forall>p. p \<notin> shard_file a ` {1..nat (num_shards a)} \<longrightarrow> files s' p = files s p)"
proof -
  note m = main_shards[OF assms]
  have names: "shard_file a k = path_join (choose_outdir a)
              (''split_'' @ zero_pad (max 2 (length (str_int (num_shards a)))) k @ ''.json'')" for k
    by (simp add: shard_file_def shard_path_def shard_width_def)
  have pad: "zero_pad (max 2 (length (str_int (num_shards a)))) k
              = replicate (max 2 (length (str_int (num_shards a))) - length (str_nat k)) (CHR ''0'')
                  @ str_nat k" for k
    by (simp add: zero_pad_def)
  have len: "length (zero_pad (max 2 (length (str_int (num_shards a)))) k)
              = max 2 (length (str_int (num_shards a)))" if "k \<le> nat (num_shards a)" for k
    using length_zero_pad_shard[OF assms(3) that] by (simp add: shard_width_def)
  have content: "\<exists>sh. files s' (shard_file a k) = Some (JObj sh)
                \<and> (length (survivors a d) < k \<longrightarrow> sh = [])"
    if "1 \<le> k" "k \<le> nat (num_shards a)" for k
  proof (intro exI conjI impI)
    show "files s' (shard_file a k) = Some (JObj (shard_of a d k))"
      by (rule m(2)[OF that])
    assume "length (survivors a d) < k"
    then have "length (survivors a d) \<le> k - 1" by simp
    then show "shard_of a d k = []"
      by (simp add: shard_of_def round_robin_beyond)
  qed
  have "inj_on (shard_file a) {1..nat (num_shards a)}"
    by (auto simp: inj_on_def dest: shard_file_inj)
  then have card: "card (shard_file a ` {1..nat (num_shards a)}) = nat (num_shards a)"
    by (simp add: card_image)
  have other: "files s' p = files s p" if "p \<notin> shard_file a ` {1..nat (num_shards a)}" for p
  proof (rule m(3))
    show "\<forall>k. 1 \<le> k \<and> k \<le> nat (num_shards a) \<longrightarrow> p \<noteq> shard_file a k"
      using that by auto
  qed
  from m(1) names pad len content card other show ?thesis
    by blast
qed

theorem splitter_shard_files_witness:
  "files example_fs (input example_args) = Some (JObj example_people)
   \<and> distinct (map fst example_people)
   \<and> 1 \<le> num_shards example_args
   \<and> fst (main example_args example_fs) = None
   \<and> dirs (snd (main example_args example_fs)) = {''out''}
   \<and> shard_file example_args 1 = ''out/split_01.json''
   \<and> shard_file example_args 2 = ''out/split_02.json''
   \<and> card (shard_file example_args ` {1..nat (num_shards example_args)}) = 2"
  using splitter_shard_files[OF example_input example_people_distinct example_shards example_run]
    example_input example_people_distinct example_run_ok
  by (simp add: example_args_def example_fs_def shard_file_def choose_outdir_def shard_width_def
      str_int_def str_nat_small shard_path_def path_join_def zero_pad_def digit_char_def)

section \<open>The identifiers of the shards\<close>

lemma survivors_set:
  assumes "distinct (map fst d)"
  shows "set (survivors a d)
     = {pid. \<exists>v ys. (pid, v) \<in> set d \<and> transform_items (normalize v) = Inr ys \<and> ys \<noteq> []}"
proof -
  have "survives d pid \<longleftrightarrow> (\<exists>ys. transform_items (normalize v) = Inr ys \<and> ys \<noteq> [])"
    if "(pid, v) \<in> set d" for pid v
    using get_distinct[OF assms that] by (simp add: survives_iff)
  then show ?thesis
    unfolding survivors_def by (auto simp: all_ids_set) (metis fst_conv image_eqI)
qed

lemma shard_keys_union:
  assumes "1 \<le> n"
  shows "(\<Union>k\<in>{1..n}. set (round_robin ids n (k - 1))) = set ids"
proof -
  have "(\<lambda>k. k - 1) ` {1..n} = {0..<n}"
  proof
    show "(\<lambda>k. k - 1) ` {1..n} \<subseteq> {0..<n}" by auto
    show "{0..<n} \<subseteq> (\<lambda>k. k - 1) ` {1..n}"
    proof
      fix b assume "b \<in> {0..<n}"
      then have "Suc b \<in> {1..n}" "b = Suc b - 1" by simp_all
      then show "b \<in> (\<lambda>k. k - 1) ` {1..n}" by (rule rev_image_eqI)
    qed
  qed
  then have "(\<Union>k\<in>{1..n}. set (round_robin ids n (k - 1))) = (\<Union>b\<in>{0..<n}. set (round_robin ids n b))"
    by (metis image_image)
  also have "\<dots> = set ids"
    using assms by (intro round_robin_union) simp
  finally show ?thesis .
qed

lemma shard_of_entry:
  assumes "(pid, v) \<in> set (shard_of a d k)"
  shows "\<exists>ys. v = JArr ys \<and> ys \<noteq> [] \<and> transform_items (normalize (get d pid)) = Inr ys"
proof -
  from assms obtain p where p: "p \<in> set (round_robin (survivors a d) (nat (num_shards a)) (k - 1))"
    "(pid, v) = new_entry d p"
    by (auto simp: shard_of_def)
  from p(2) have "p = pid" and v: "v = JArr (case new_items_of (get d pid) of Inl e \<Rightarrow> [] | Inr ys \<Rightarrow> ys)"
    by (simp_all add: new_entry_def)
  with p(1) round_robin_subset have "pid \<in> set (survivors a d)" by fastforce
  then have "survives d pid" by (simp add: survivors_def)
  then obtain ys where "new_items_of (get d pid) = Inr ys" "ys \<noteq> []"
    by (auto simp: survives_def split: sum.splits)
  with v show ?thesis by (simp add: new_items_normalize)
qed

text \<open>
  Claim C5. After a run of the Splitter with \<open>N \<ge> 1\<close> shards that completes, shard file \<open>k\<close>
  holds the object \<open>shard_of a d k\<close>, for \<open>k = 1, ..., N\<close>. The identifiers of these \<open>N\<close> objects
  together are exactly the input identifiers whose normalised value gives a non-empty result
  of \<^verbatim>\<open>transform_items\<close>; two different shards have no identifier in common, no shard holds
  an identifier twice, and every identifier of a shard is mapped to its non-empty list of
  transformed records.
\<close>

theorem splitter_shard_identifiers:
  assumes "files s (input a) = Some (JObj d)" "distinct (map fst d)" "1 \<le> num_shards a"
    and "main a s = (None, s')"
  shows "(\<forall>k. 1 \<le> k \<and> k \<le> nat (num_shards a) \<longrightarrow>
            files s' (shard_file a k) = Some (JObj (shard_of a d k)))
     \<and> (\<Union>k\<in>{1..nat (num_shards a)}. fst ` set (shard_of a d k))
          = {pid. \<exists>v ys. (pid, v) \<in> set d \<and> transform_items (normalize v) = Inr ys \<and> ys \<noteq> []}
     \<and> (\<forall>j k. 1 \<le> j \<and> 1 \<le> k \<and> j \<noteq> k \<longrightarrow>
            fst ` set (shard_of a d j) \<inter> fst ` set (shard_of a d k) = {})
     \<and> (\<forall>k. distinct (map fst (shard_of a d k)))
     \<and> (\<forall>k pid v. (pid, v) \<in> set (shard_of a d k) \<longrightarrow>
            (\<exists>ys. v = JArr ys \<and> ys \<noteq> [] \<and> transform_items (normalize (get d pid)) = Inr ys))"
proof -
  let ?n = "nat (num_shards a)"
  have n: "1 \<le> ?n" using assms(3) by simp
  have keys: "fst ` set (shard_of a d k) = set (round_robin (survivors a d) ?n (k - 1))" for k
    using shard_of_keys[of a d k] by (metis set_map)
  have files: "\<forall>k. 1 \<le> k \<and> k \<le> ?n \<longrightarrow> files s' (shard_file a k) = Some (JObj (shard_of a d k))"
    using main_shards(2)[OF assms] by blast
  have union: "(\<Union>k\<in>{1..?n}. fst ` set (shard_of a d k))
          = {pid. \<exists>v ys. (pid, v) \<in> set d \<and> transform_items (normalize v) = Inr ys \<and> ys \<noteq> []}"
    unfolding keys shard_keys_union[OF n] by (rule survivors_set[OF assms(2)])
  have disj: "fst ` set (shard_of a d j) \<inter> fst ` set (shard_of a d k) = {}"
    if "1 \<le> j \<and> 1 \<le> k \<and> j \<noteq> k" for j k
  proof -
    from that have "j - 1 \<noteq> k - 1" by arith
    then show ?thesis
      unfolding keys by (rule round_robin_disjoint[OF survivors_distinct[OF assms(2)]])
  qed
  have dist: "distinct (map fst (shard_of a d k))" for k
    unfolding shard_of_keys by (rule round_robin_distinct[OF survivors_distinct[OF assms(2)]])
  show ?thesis
  proof (intro conjI allI impI)
    fix k :: nat assume "1 \<le> k \<and> k \<le> ?n"
    with files show "files s' (shard_file a k) = Some (JObj (shard_of a d k))" by simp
  next
    show "(\<Union>k\<in>{1..?n}. fst ` set (shard_of a d k))
          = {pid. \<exists>v ys. (pid, v) \<in> set d \<and> transform_items (normalize v) = Inr ys \<and> ys \<noteq> []}"
      by (rule union)
  next
    fix j k :: nat assume "1 \<le> j \<and> 1 \<le> k \<and> j \<noteq> k"
    then show "fst ` set (shard_of a d j) \<inter> fst ` set (shard_of a d k) = {}" by (rule disj)
  next
    fix k show "distinct (map fst (shard_of a d k))" by (rule dist)
  next
    fix k pid v assume "(pid, v) \<in> set (shard_of a d k)"
    then show "\<exists>ys. v = JArr ys \<and> ys \<noteq> [] \<and> transform_items (normalize (get d pid)) = Inr ys"
      by (rule shard_of_entry)
  qed
qed

theorem splitter_shard_identifiers_witness:
  "files example_fs (input example_args) = Some (JObj example_people)
   \<and> distinct (map fst example_people)
   \<and> 1 \<le> num_shards example_args
   \<and> fst (main example_args example_fs) = None
   \<and> files (snd (main example_args example_fs)) (shard_file example_args 1)
        = Some (JObj (shard_of example_args example_people 1))
   \<and> files (snd (main example_args example_fs)) (shard_file example_args 2)
        = Some (JObj (shard_of example_args example_people 2))
   \<and> distinct (map fst (shard_of example_args example_people 1))
   \<and> files (snd (main example_args example_fs)) ''out/split_01.json''
        = Some (JObj [(''p1'', JArr [JObj [(''name'', JStr ''n''), (''question'', JStr ''q2''),
                                           (''fact'', JStr ''no'')]]),
                      (''p5'', JArr [JObj [(''name'', JStr ''n''), (''question'', JStr ''q4''),
                                           (''fact'', JStr ''yes'')]])])
   \<and> files (snd (main example_args example_fs)) ''out/split_02.json''
        = Some (JObj [(''p2'', JArr [JObj [(''name'', JStr ''n''), (''question'', JStr ''q1''),
                                           (''fact'', JStr ''yes'')]])])"
proof -
  note t = splitter_shard_identifiers[OF example_input example_people_distinct example_shards
      example_run]
  have two: "nat (num_shards example_args) = 2" by (simp add: example_args_def)
  from t have f1: "files (snd (main example_args example_fs)) (shard_file example_args 1)
        = Some (JObj (shard_of example_args example_people 1))"
    and f2: "files (snd (main example_args example_fs)) (shard_file example_args 2)
        = Some (JObj (shard_of example_args example_people 2))"
    and d1: "distinct (map fst (shard_of example_args example_people 1))"
    unfolding two by simp_all
  have e1: "files (snd (main example_args example_fs)) ''out/split_01.json''
        = Some (JObj [(''p1'', JArr [JObj [(''name'', JStr ''n''), (''question'', JStr ''q2''),
                                           (''fact'', JStr ''no'')]]),
                      (''p5'', JArr [JObj [(''name'', JStr ''n''), (''question'', JStr ''q4''),
                                           (''fact'', JStr ''yes'')]])])"
    by (simp add: run_simps)
  have e2: "files (snd (main example_args example_fs)) ''out/split_02.json''
        = Some (JObj [(''p2'', JArr [JObj [(''name'', JStr ''n''), (''question'', JStr ''q1''),
                                           (''fact'', JStr ''yes'')]])])"
    by (simp add: run_simps)
  from example_input example_people_distinct example_shards example_run_ok f1 f2 d1 e1 e2
  show ?thesis by (intro conjI)
qed

text \<open>
  Claim C6. Let \<open>ids\<close> be the filtered identifier list of a run of the Splitter with \<open>N \<ge> 1\<close>
  shards that completes. The identifier at position \<open>idx\<close> of \<open>ids\<close> is an identifier of shard
  file \<open>(idx mod N) + 1\<close>, and the identifiers of shard file \<open>k\<close>, in the order of the file, are
  those at the positions \<open>idx\<close> with \<open>(idx mod N) + 1 = k\<close>, in the order of their positions.
  On any list of identifiers \<^verbatim>\<open>shard_ids\<close> returns \<open>N\<close> buckets, of which bucket \<open>b\<close> holds the
  identifiers at the positions \<open>idx\<close> with \<open>idx mod N = b\<close>, in the order of their positions.
\<close>

theorem splitter_round_robin:
  assumes "files s (input a) = Some (JObj d)" "distinct (map fst d)" "1 \<le> num_shards a"
    and "main a s = (None, s')"
    and "transform_all (all_ids_of a d) d [] = Inr transformed"
    and "ids = filtered_ids_of (all_ids_of a d) transformed"
  shows "(\<forall>idx<length ids. \<exists>sh.
            files s' (shard_file a (idx mod nat (num_shards a) + 1)) = Some (JObj sh)
            \<and> ids ! idx \<in> fst ` set sh)
     \<and> (\<forall>k. 1 \<le> k \<and> k \<le> nat (num_shards a) \<longrightarrow> (\<exists>sh.
            files s' (shard_file a k) = Some (JObj sh)
            \<and> map fst sh
                = map (nth ids) (filter (\<lambda>idx. idx mod nat (num_shards a) + 1 = k) [0..<length ids])))
     \<and> (\<forall>l. shard_ids l (num_shards a)
            = Inr (map (\<lambda>b. map (nth l) (filter (\<lambda>idx. idx mod nat (num_shards a) = b) [0..<length l]))
                    [0..<nat (num_shards a)]))"
proof -
  let ?n = "nat (num_shards a)"
  have n: "0 < ?n" using assms(3) by simp
  have buckets: "shard_ids l (num_shards a)
            = Inr (map (\<lambda>b. map (nth l) (filter (\<lambda>idx. idx mod ?n = b) [0..<length l])) [0..<?n])"
    for l
  proof -
    have "map (round_robin l ?n) [0..<?n]
        = map (\<lambda>b. map (nth l) (filter (\<lambda>idx. idx mod ?n = b) [0..<length l])) [0..<?n]"
      by (rule map_cong) (simp_all add: round_robin_def)
    with shard_ids_round_robin[OF assms(3), of l] show ?thesis by simp
  qed
  note tr = main_transformed[OF assms(1,2,4)]
  from tr(1) assms(5) have "transformed = map (new_entry d) (survivors a d)" by simp
  with tr(2) assms(6) have ids: "ids = survivors a d" by simp
  note files = main_shards(2)[OF assms(1-4)]
  have keys: "map fst (shard_of a d k)
      = map (nth ids) (filter (\<lambda>idx. idx mod ?n + 1 = k) [0..<length ids])" if "1 \<le> k" for k
  proof -
    have "filter (\<lambda>idx. idx mod ?n = k - 1) [0..<length ids]
        = filter (\<lambda>idx. idx mod ?n + 1 = k) [0..<length ids]"
      using that by (intro filter_cong) auto
    then show ?thesis
      by (simp add: shard_of_keys round_robin_def ids)
  qed
  have pos: "\<exists>sh. files s' (shard_file a (idx mod ?n + 1)) = Some (JObj sh) \<and> ids ! idx \<in> fst ` set sh"
    if "idx < length ids" for idx
  proof (intro exI conjI)
    have "idx mod ?n < ?n" using n by simp
    then show "files s' (shard_file a (idx mod ?n + 1)) = Some (JObj (shard_of a d (idx mod ?n + 1)))"
      by (intro files) simp_all
    have "ids ! idx \<in> set (round_robin ids ?n (idx mod ?n))"
      using that by (rule round_robin_mem)
    then have "ids ! idx \<in> set (map fst (shard_of a d (idx mod ?n + 1)))"
      by (simp add: shard_of_keys ids)
    then show "ids ! idx \<in> fst ` set (shard_of a d (idx mod ?n + 1))" by simp
  qed
  have order: "\<exists>sh. files s' (shard_file a k) = Some (JObj sh)
            \<and> map fst sh = map (nth ids) (filter (\<lambda>idx. idx mod ?n + 1 = k) [0..<length ids])"
    if "1 \<le> k" "k \<le> ?n" for k
    using files[OF that] keys[OF that(1)] by blast
  show ?thesis
  proof (intro conjI allI impI)
    fix idx assume "idx < length ids"
    then show "\<exists>sh. files s' (shard_file a (idx mod ?n + 1)) = Some (JObj sh)
        \<and> ids ! idx \<in> fst ` set sh"
      by (rule pos)
  next
    fix k :: nat assume "1 \<le> k \<and> k \<le> ?n"
    then show "\<exists>sh. files s' (shard_file a k) = Some (JObj sh)
        \<and> map fst sh = map (nth ids) (filter (\<lambda>idx. idx mod ?n + 1 = k) [0..<length ids])"
      using order by simp
  next
    fix l show "shard_ids l (num_shards a)
        = Inr (map (\<lambda>b. map (nth l) (filter (\<lambda>idx. idx mod ?n = b) [0..<length l])) [0..<?n])"
      by (rule buckets)
  qed
qed

lemma example_transformed:
  "transform_all (all_ids_of example_args example_people) example_people [] =
     Inr [(''p1'', JArr [JObj [(''name'', JStr ''n''), (''question'', JStr ''q2''),
                               (''fact'', JStr ''no'')]]),
          (''p2'', JArr [JObj [(''name'', JStr ''n''), (''question'', JStr ''q1''),
                               (''fact'', JStr ''yes'')]]),
          (''p5'', JArr [JObj [(''name'', JStr ''n''), (''question'', JStr ''q4''),
                               (''fact'', JStr ''yes'')]])]"
  by (simp add: run_simps)

lemma example_filtered:
  "[''p1'', ''p2'', ''p5''] = filtered_ids_of (all_ids_of example_args example_people)
     [(''p1'', JArr [JObj [(''name'', JStr ''n''), (''question'', JStr ''q2''),
                               (''fact'', JStr ''no'')]]),
          (''p2'', JArr [JObj [(''name'', JStr ''n''), (''question'', JStr ''q1''),
                               (''fact'', JStr ''yes'')]]),
          (''p5'', JArr [JObj [(''name'', JStr ''n''), (''question'', JStr ''q4''),
                               (''fact'', JStr ''yes'')]])]"
  by (simp add: run_simps)

theorem splitter_round_robin_witness:
  "files example_fs (input example_args) = Some (JObj example_people)
   \<and> distinct (map fst example_people)
   \<and> 1 \<le> num_shards example_args
   \<and> fst (main example_args example_fs) = None
   \<and> (\<exists>sh. files (snd (main example_args example_fs)) (shard_file example_args 1) = Some (JObj sh)
          \<and> map fst sh = [''p1'', ''p5''])
   \<and> (\<exists>sh. files (snd (main example_args example_fs)) (shard_file example_args 2) = Some (JObj sh)
          \<and> map fst sh = [''p2''])"
proof -
  note t = splitter_round_robin[OF example_input example_people_distinct example_shards
      example_run example_transformed example_filtered]
  have two: "nat (num_shards example_args) = 2" by (simp add: example_args_def)
  have pos: "[0..<length [''p1'', ''p2'', ''p5'']] = [0, 1, 2]"
    by (simp add: upt_rec_numeral)
  have r1: "map (nth [''p1'', ''p2'', ''p5''])
        (filter (\<lambda>idx. idx mod nat (num_shards example_args) + 1 = 1)
           [0..<length [''p1'', ''p2'', ''p5'']]) = [''p1'', ''p5'']"
    unfolding two pos by simp
  have r2: "map (nth [''p1'', ''p2'', ''p5''])
        (filter (\<lambda>idx. idx mod nat (num_shards example_args) + 1 = 2)
           [0..<length [''p1'', ''p2'', ''p5'']]) = [''p2'']"
    unfolding two pos by simp
  have k1: "1 \<le> (1::nat) \<and> 1 \<le> nat (num_shards example_args)" by (simp add: two)
  have k2: "1 \<le> (2::nat) \<and> 2 \<le> nat (num_shards example_args)" by (simp add: two)
  note s1 = t[THEN conjunct2, THEN conjunct1, rule_format, OF k1, unfolded r1]
  note s2 = t[THEN conjunct2, THEN conjunct1, rule_format, OF k2, unfolded r2]
  from example_input example_people_distinct example_shards example_run_ok s1 s2
  show ?thesis by (intro conjI)
qed

section \<open>Sorted identifiers\<close>

lemma sorted_ids_eq:
  assumes "sort_ids a" "distinct (map fst d1)" "distinct (map fst d2)" "map_of d1 = map_of d2"
  shows "all_ids_of a d1 = all_ids_of a d2"
proof -
  have "fst ` set d1 = dom (map_of d1)" "fst ` set d2 = dom (map_of d2)"
    by (simp_all add: dom_map_of_conv_image_fst)
  with assms(4) have "set (sort (map fst d1)) = set (sort (map fst d2))" by simp
  moreover have "distinct (sort (map fst d1))" "distinct (sort (map fst d2))"
    using assms(2,3) by simp_all
  moreover have "sorted (sort (map fst d1))" "sorted (sort (map fst d2))"
    by simp_all
  ultimately have "sort (map fst d1) = sort (map fst d2)"
    using sorted_distinct_set_unique by blast
  with assms(1) show ?thesis by (simp add: all_ids_of_def)
qed

lemma get_map_of_eq: "map_of d1 = map_of d2 \<Longrightarrow> get d1 k = get d2 k"
  by (simp add: get_def get_default_def)

lemma shard_of_cong:
  assumes "all_ids_of a d1 = all_ids_of a d2" "map_of d1 = map_of d2"
  shows "shard_of a d1 k = shard_of a d2 k"
proof -
  have s: "survives d1 = survives d2"
    by (simp add: fun_eq_iff survives_def get_map_of_eq[OF assms(2)])
  have e: "new_entry d1 = new_entry d2"
    by (simp add: fun_eq_iff new_entry_def get_map_of_eq[OF assms(2)])
  show ?thesis
    by (simp add: shard_of_def survivors_def s e assms(1))
qed

lemma main_fst_cong:
  assumes "files s1 (input a) = Some (JObj d1)" "files s2 (input a) = Some (JObj d2)"
    and "all_ids_of a d1 = all_ids_of a d2" "map_of d1 = map_of d2"
  shows "fst (main a s1) = fst (main a s2)"
proof -
  have t: "transform_all (all_ids_of a d1) d1 [] = transform_all (all_ids_of a d2) d2 []"
    unfolding assms(3) by (rule transform_all_get_cong) (rule get_map_of_eq[OF assms(4)])
  show ?thesis
  proof (cases "transform_all (all_ids_of a d2) d2 []")
    case (Inl e)
    with t show ?thesis
      by (simp add: main_unfold[OF assms(1)] main_unfold[OF assms(2)])
  next
    case (Inr transformed)
    show ?thesis
    proof (cases "shard_ids (filtered_ids_of (all_ids_of a d2) transformed) (num_shards a)")
      case (Inl e)
      with t Inr show ?thesis
        by (simp add: main_unfold[OF assms(1)] main_unfold[OF assms(2)] assms(3))
    next
      case (Inr buckets)
      with t \<open>transform_all (all_ids_of a d2) d2 [] = Inr transformed\<close> show ?thesis
        using write_shards_fst[of "choose_outdir a" "shard_width (num_shards a)" 1 buckets
            transformed "ensure_outdir (choose_outdir a) s1" "ensure_outdir (choose_outdir a) s2"]
        by (simp add: main_unfold[OF assms(1)] main_unfold[OF assms(2)] assms(3))
    qed
  qed
qed

text \<open>
  Claim C9. With \<^verbatim>\<open>--sort_ids\<close>, two runs of the Splitter on datasets that hold the same
  identifiers with the same values, in whatever order, end alike (both complete or both
  raise the same exception), and when they complete each of the \<open>N\<close> shard files has the same
  contents after both runs.
\<close>

theorem splitter_sorted_deterministic:
  assumes "sort_ids a" "distinct (map fst d1)" "distinct (map fst d2)" "map_of d1 = map_of d2"
    and "files s1 (input a) = Some (JObj d1)" "files s2 (input a) = Some (JObj d2)"
  shows "fst (main a s1) = fst (main a s2)
     \<and> (\<forall>k. fst (main a s1) = None \<and> 1 \<le> k \<and> k \<le> nat (num_shards a) \<longrightarrow>
           files (snd (main a s1)) (shard_file a k) = files (snd (main a s2)) (shard_file a k)
           \<and> files (snd (main a s1)) (shard_file a k) \<noteq> None)"
proof (intro conjI allI impI)
  note ids = sorted_ids_eq[OF assms(1-4)]
  show same: "fst (main a s1) = fst (main a s2)"
    by (rule main_fst_cong[OF assms(5,6) ids assms(4)])
  fix k :: nat
  assume "fst (main a s1) = None \<and> 1 \<le> k \<and> k \<le> nat (num_shards a)"
  then have ok: "fst (main a s1) = None" and k: "1 \<le> k" "k \<le> nat (num_shards a)" by simp_all
  from k have n: "1 \<le> num_shards a" by simp
  from ok have r1: "main a s1 = (None, snd (main a s1))" by (simp add: prod_eq_iff)
  from ok same have r2: "main a s2 = (None, snd (main a s2))" by (simp add: prod_eq_iff)
  have f1: "files (snd (main a s1)) (shard_file a k) = Some (JObj (shard_of a d1 k))"
    by (rule main_shards(2)[OF assms(5,2) n r1 k])
  have f2: "files (snd (main a s2)) (shard_file a k) = Some (JObj (shard_of a d2 k))"
    by (rule main_shards(2)[OF assms(6,3) n r2 k])
  from f1 f2 shard_of_cong[OF ids assms(4), of k]
  show "files (snd (main a s1)) (shard_file a k) = files (snd (main a s2)) (shard_file a k)"
    by simp
  from f1 show "files (snd (main a s1)) (shard_file a k) \<noteq> None" by simp
qed

lemma example_reordered_same: "map_of example_people = map_of example_people_reordered"
proof -
  have "set example_people = set example_people_reordered"
    by (auto simp: example_people_def example_people_reordered_def)
  moreover have "distinct (map fst example_people)" "distinct (map fst example_people_reordered)"
    by (simp_all add: example_people_def example_people_reordered_def)
  ultimately show ?thesis by (simp add: map_of_inject_set)
qed

theorem splitter_sorted_deterministic_witness:
  "sort_ids example_args
   \<and> distinct (map fst example_people) \<and> distinct (map fst example_people_reordered)
   \<and> map_of example_people = map_of example_people_reordered
   \<and> map fst example_people \<noteq> map fst example_people_reordered
   \<and> files example_fs (input example_args) = Some (JObj example_people)
   \<and> files example_fs_reordered (input example_args) = Some (JObj example_people_reordered)
   \<and> fst (main example_args example_fs) = None
   \<and> fst (main example_args example_fs_reordered) = None
   \<and> files (snd (main example_args example_fs)) (shard_file example_args 1)
        = files (snd (main example_args example_fs_reordered)) (shard_file example_args 1)
   \<and> files (snd (main example_args example_fs)) (shard_file example_args 2)
        = files (snd (main example_args example_fs_reordered)) (shard_file example_args 2)"
proof -
  have h1: "sort_ids example_args" by (simp add: example_args_def)
  have h3: "distinct (map fst example_people_reordered)"
    by (simp add: example_people_reordered_def)
  have h5: "files example_fs_reordered (input example_args) = Some (JObj example_people_reordered)"
    by (simp add: example_fs_reordered_def example_args_def)
  have ne: "map fst example_people \<noteq> map fst example_people_reordered"
    by (simp add: example_people_def example_people_reordered_def)
  note t = splitter_sorted_deterministic[OF h1 example_people_distinct h3 example_reordered_same
      example_input h5]
  have two: "nat (num_shards example_args) = 2" by (simp add: example_args_def)
  from t example_run_ok have ok2: "fst (main example_args example_fs_reordered) = None" by simp
  have k1: "fst (main example_args example_fs) = None \<and> 1 \<le> (1::nat)
      \<and> 1 \<le> nat (num_shards example_args)"
    using example_run_ok by (simp add: two)
  have k2: "fst (main example_args example_fs) = None \<and> 1 \<le> (2::nat)
      \<and> 2 \<le> nat (num_shards example_args)"
    using example_run_ok by (simp add: two)
  note s1 = t[THEN conjunct2, rule_format, OF k1, THEN conjunct1]
  note s2 = t[THEN conjunct2, rule_format, OF k2, THEN conjunct1]
  from h1 example_people_distinct h3 example_reordered_same ne example_input h5 example_run_ok
    ok2 s1 s2
  show ?thesis by (intro conjI)
qed

section \<open>An identifier with an empty list\<close>

lemma empty_list_not_survives:
  assumes "distinct (map fst d)" "(k, JArr []) \<in> set d"
  shows "\<not> survives d k"
  using get_distinct[OF assms] by (simp add: survives_def new_items_of_def transform_items_def)

text \<open>
  Claim C10. An identifier whose value is the empty list is kept by the Converter: when the
  outputs are produced it is mapped to the empty list in "selected" if it is one of "10000",
  ..., "10009" and in "others" if not. The Splitter leaves it out: after a run with \<open>N \<ge> 1\<close>
  shards that completes it is an identifier of none of the \<open>N\<close> shard files.
\<close>

theorem empty_list_identifier:
  "(distinct (map fst d) \<and> process_data (JObj d) = Inr (JObj selected, JObj others)
      \<and> (k, JArr []) \<in> set d \<longrightarrow>
      (if k \<in> {''10000'', ''10001'', ''10002'', ''10003'', ''10004'', ''10005'',
                 ''10006'', ''10007'', ''10008'', ''10009''}
       then map_of selected k = Some (JArr [])
       else map_of others k = Some (JArr [])))
   \<and> (distinct (map fst d) \<and> files s (input a) = Some (JObj d) \<and> 1 \<le> num_shards a
      \<and> main a s = (None, s') \<and> (k, JArr []) \<in> set d \<longrightarrow>
      (\<forall>j. 1 \<le> j \<and> j \<le> nat (num_shards a) \<longrightarrow>
         (\<exists>sh. files s' (shard_file a j) = Some (JObj sh) \<and> k \<notin> fst ` set sh)))"
proof (intro conjI impI allI)
  assume "distinct (map fst d) \<and> process_data (JObj d) = Inr (JObj selected, JObj others)
      \<and> (k, JArr []) \<in> set d"
  then have dist: "distinct (map fst d)"
    and ok: "process_data (JObj d) = Inr (JObj selected, JObj others)"
    and mem: "(k, JArr []) \<in> set d" by simp_all
  note r = process_data_routed[OF dist ok]
  have c: "map_result convert_record [] = Inr []" by simp
  have "map_of selected k = (if k \<in> selected_ids then Some (JArr []) else None)"
    unfolding r(1) by (rule map_of_routed_list[OF dist mem c])
  moreover have "map_of others k = (if k \<notin> selected_ids then Some (JArr []) else None)"
    unfolding r(2) by (rule map_of_routed_list[OF dist mem c])
  ultimately show "if k \<in> {''10000'', ''10001'', ''10002'', ''10003'', ''10004'', ''10005'',
                 ''10006'', ''10007'', ''10008'', ''10009''}
       then map_of selected k = Some (JArr [])
       else map_of others k = Some (JArr [])"
    unfolding selected_ids_eq[symmetric] by simp
next
  fix j :: nat
  assume "distinct (map fst d) \<and> files s (input a) = Some (JObj d) \<and> 1 \<le> num_shards a
      \<and> main a s = (None, s') \<and> (k, JArr []) \<in> set d"
  then have dist: "distinct (map fst d)" and inp: "files s (input a) = Some (JObj d)"
    and n: "1 \<le> num_shards a" and run: "main a s = (None, s')"
    and mem: "(k, JArr []) \<in> set d" by simp_all
  assume "1 \<le> j \<and> j \<le> nat (num_shards a)"
  then have j: "1 \<le> j" "j \<le> nat (num_shards a)" by simp_all
  have "k \<notin> set (survivors a d)"
    using empty_list_not_survives[OF dist mem] by (simp add: survivors_def)
  with round_robin_subset[of "survivors a d" "nat (num_shards a)" "j - 1"]
  have "k \<notin> set (map fst (shard_of a d j))"
    unfolding shard_of_keys by blast
  then have "k \<notin> fst ` set (shard_of a d j)" by simp
  with main_shards(2)[OF inp dist n run j]
  show "\<exists>sh. files s' (shard_file a j) = Some (JObj sh) \<and> k \<notin> fst ` set sh" by blast
qed

theorem empty_list_identifier_witness:
  "distinct (map fst example_dataset)
   \<and> (''10001'', JArr []) \<in> set example_dataset
   \<and> process_data (JObj example_dataset) =
     Inr (JObj [(''10000'', JArr [JObj [(''question'', JStr ''Q1''), (''fact'', JStr ''fact1''),
                                        (''name'', JNull)]]),
                (''10001'', JArr [])],
          JObj [(''20000'', JArr [JObj [(''question'', JStr ''Q2''), (''fact'', JNull),
                                        (''name'', JNull)]])])
   \<and> map_of [(''10000'', JArr [JObj [(''question'', JStr ''Q1''), (''fact'', JStr ''fact1''),
                                        (''name'', JNull)]]),
                (''10001'', JArr [])] ''10001'' = Some (JArr [])
   \<and> distinct (map fst example_people)
   \<and> files example_fs (input example_args) = Some (JObj example_people)
   \<and> 1 \<le> num_shards example_args
   \<and> fst (main example_args example_fs) = None
   \<and> (''p4'', JArr []) \<in> set example_people
   \<and> (\<exists>sh. files (snd (main example_args example_fs)) (shard_file example_args 1) = Some (JObj sh)
          \<and> ''p4'' \<notin> fst ` set sh)
   \<and> (\<exists>sh. files (snd (main example_args example_fs)) (shard_file example_args 2) = Some (JObj sh)
          \<and> ''p4'' \<notin> fst ` set sh)"
proof -
  have m1: "(''10001'', JArr []) \<in> set example_dataset" by (simp add: example_dataset_def)
  have m2: "(''p4'', JArr []) \<in> set example_people" by (simp add: example_people_def)
  have c: "distinct (map fst example_dataset) \<and> process_data (JObj example_dataset) =
     Inr (JObj [(''10000'', JArr [JObj [(''question'', JStr ''Q1''), (''fact'', JStr ''fact1''),
                                        (''name'', JNull)]]),
                (''10001'', JArr [])],
          JObj [(''20000'', JArr [JObj [(''question'', JStr ''Q2''), (''fact'', JNull),
                                        (''name'', JNull)]])])
      \<and> (''10001'', JArr []) \<in> set example_dataset"
    using example_distinct example_converted m1 by (intro conjI)
  have sp: "distinct (map fst example_people)
      \<and> files example_fs (input example_args) = Some (JObj example_people)
      \<and> 1 \<le> num_shards example_args
      \<and> main example_args example_fs = (None, snd (main example_args example_fs))
      \<and> (''p4'', JArr []) \<in> set example_people"
    using example_people_distinct example_input example_shards example_run m2 by (intro conjI)
  have two: "nat (num_shards example_args) = 2" by (simp add: example_args_def)
  have k1: "1 \<le> (1::nat) \<and> 1 \<le> nat (num_shards example_args)" by (simp add: two)
  have k2: "1 \<le> (2::nat) \<and> 2 \<le> nat (num_shards example_args)" by (simp add: two)
  note t = empty_list_identifier
  have conv: "map_of [(''10000'', JArr [JObj [(''question'', JStr ''Q1''), (''fact'', JStr ''fact1''),
                                        (''name'', JNull)]]),
                (''10001'', JArr [])] ''10001'' = Some (JArr [])"
    using t[THEN conjunct1, rule_format, OF c] by simp
  note s1 = t[THEN conjunct2, rule_format, OF sp k1]
  note s2 = t[THEN conjunct2, rule_format, OF sp k2]
  from example_distinct m1 example_converted conv example_people_distinct example_input
    example_shards example_run_ok m2 s1 s2
  show ?thesis by (intro conjI)
qed

section \<open>What \<^verbatim>\<open>transform_items\<close> returns\<close>

lemma key_in_empty: "key_in v [] = False"
  by (cases v) simp_all

lemma transform_loop_step:
  assumes "item_ok (JObj r)"
  shows "transform_loop (JObj r # items) out = transform_loop items (out @ transform_step r)"
proof (cases "get_default r ''choices'' (JObj [])")
  case (JObj c)
  with assms have "hashable (get r ''answer'')" by simp
  with JObj show ?thesis
    by (simp add: transform_step_def Let_def)
qed (simp_all add: transform_step_def Let_def)

lemma transform_loop_not_ok:
  assumes "\<not> item_ok it"
  shows "\<exists>e. transform_loop (it # items) out = Inl e"
proof (cases it)
  case (JObj r)
  show ?thesis
  proof (cases "get_default r ''choices'' (JObj [])")
    case c: (JObj c)
    with assms JObj have "\<not> hashable (get r ''answer'')" by simp
    with JObj c show ?thesis by (simp add: Let_def)
  qed (use assms JObj in simp_all)
qed simp_all

lemma transform_loop_ok:
  "list_all item_ok items \<Longrightarrow>
     transform_loop items out = Inr (out @ concat (map transform1 items))"
proof (induction items arbitrary: out)
  case Nil
  then show ?case by simp
next
  case (Cons it items)
  then obtain r where r: "it = JObj r" by (cases it) simp_all
  with Cons.prems have ok: "item_ok (JObj r)" "list_all item_ok items" by simp_all
  show ?case
    unfolding r transform_loop_step[OF ok(1)] Cons.IH[OF ok(2)] by simp
qed

lemma transform_items_ok:
  "list_all item_ok items \<Longrightarrow> transform_items items = Inr (concat (map transform1 items))"
  by (simp add: transform_items_def transform_loop_ok)

lemma transform_items_not_ok:
  "\<not> list_all item_ok items \<Longrightarrow> \<exists>e. transform_loop items out = Inl e"
proof (induction items arbitrary: out)
  case Nil
  then show ?case by simp
next
  case (Cons it items)
  show ?case
  proof (cases "item_ok it")
    case True
    then obtain r where r: "it = JObj r" by (cases it) simp_all
    from True Cons.prems have "\<not> list_all item_ok items" by simp
    from Cons.IH[OF this] True show ?thesis
      unfolding r by (simp only: transform_loop_step)
  next
    case False
    then show ?thesis by (rule transform_loop_not_ok)
  qed
qed

lemma transform_step_emits: "transform_step r = (if emits r then [emitted r] else [])"
proof (cases "map_of r ''choices''")
  case None
  then have "\<not> emits r" by (simp add: emits_def)
  with None show ?thesis
    by (simp add: transform_step_def get_default_def key_in_empty)
next
  case (Some ch)
  note ch = this
  show ?thesis
  proof (cases ch)
    case (JObj c)
    note c = this
    show ?thesis
    proof (cases "map_of r ''answer''")
      case None
      then have "\<not> emits r" by (simp add: emits_def)
      with None ch c show ?thesis
        by (simp add: transform_step_def get_default_def get_def)
    next
      case (Some ans)
      note ans = this
      show ?thesis
      proof (cases ans)
        case (JStr a)
        show ?thesis
        proof (cases "map_of c a")
          case None
          with ch c ans JStr have "\<not> emits r" by (simp add: emits_def)
          with None ch c ans JStr show ?thesis
            by (simp add: transform_step_def get_default_def get_def)
        next
          case (Some v)
          with ch c ans JStr have "emits r \<longleftrightarrow> v \<noteq> JNull" by (simp add: emits_def)
          with Some ch c ans JStr show ?thesis
            by (simp add: transform_step_def get_default_def get_def emitted_def spec_fact_def)
        qed
      qed (use ch c ans in \<open>simp_all add: transform_step_def get_default_def get_def emits_def\<close>)
    qed
  qed (simp_all add: transform_step_def get_default_def emits_def ch)
qed

lemma transform_items_records:
  assumes "list_all item_ok (map JObj rs)"
  shows "transform_items (map JObj rs) = Inr (map emitted (filter emits rs))"
proof -
  have "concat (map transform1 (map JObj rs)) = map emitted (filter emits rs)"
    by (induction rs) (simp_all add: transform_step_emits)
  with transform_items_ok[OF assms] show ?thesis by simp
qed

section \<open>When the Splitter completes\<close>

lemma transform_all_total:
  "(\<And>pid. pid \<in> set ids \<Longrightarrow> \<exists>ys. new_items_of (get d pid) = Inr ys) \<Longrightarrow>
     \<exists>t. transform_all ids d acc = Inr t"
proof (induction ids arbitrary: acc)
  case Nil
  then show ?case by simp
next
  case (Cons pid ids)
  from Cons.prems[of pid] obtain ys where ys: "new_items_of (get d pid) = Inr ys" by auto
  have rest: "\<exists>t. transform_all ids d acc' = Inr t" for acc'
    by (rule Cons.IH) (simp add: Cons.prems)
  from ys rest show ?case by simp
qed

lemma new_items_total: "list_all item_ok (normalize v) \<Longrightarrow> \<exists>ys. new_items_of v = Inr ys"
  unfolding new_items_normalize by (simp add: transform_items_ok)

lemma main_total:
  assumes "files s (input a) = Some (JObj d)" "distinct (map fst d)" "1 \<le> num_shards a"
    and ok: "\<And>k v. (k, v) \<in> set d \<Longrightarrow> list_all item_ok (normalize v)"
  shows "fst (main a s) = None"
proof -
  let ?n = "nat (num_shards a)"
  let ?ids = "all_ids_of a d"
  let ?surv = "survivors a d"
  let ?t = "map (new_entry d) ?surv"
  let ?buckets = "map (round_robin ?surv ?n) [0..<?n]"
  have "\<exists>ys. new_items_of (get d pid) = Inr ys" if "pid \<in> set ?ids" for pid
  proof -
    from that obtain v where v: "(pid, v) \<in> set d" by (auto simp: all_ids_set)
    from get_distinct[OF assms(2) v] new_items_total[OF ok[OF v]] show ?thesis by simp
  qed
  then obtain t where t: "transform_all ?ids d [] = Inr t"
    using transform_all_total[of ?ids d "[]"] by blast
  from transform_all_survivors[OF all_ids_distinct[OF assms(2)] _ t]
  have t': "t = ?t" by (simp add: survivors_def)
  from filtered_ids_survivors[OF all_ids_distinct[OF assms(2)] t]
  have f: "filtered_ids_of ?ids t = ?surv" by (simp add: survivors_def)
  have sh: "shard_ids ?surv (num_shards a) = Inr ?buckets"
    by (rule shard_ids_round_robin[OF assms(3)])
  have sd: "shard_dict ?t b = Inr (map (new_entry d) b)" if "b \<in> set ?buckets" for b
  proof -
    from that obtain i where "b = round_robin ?surv ?n i" by auto
    then show ?thesis
      using shard_dict_entries[of b ?surv d] round_robin_subset[of ?surv ?n i]
        round_robin_distinct[OF survivors_distinct[OF assms(2)], of a ?n i]
      by simp
  qed
  from write_shards_files[of ?buckets ?t "map (new_entry d)" "choose_outdir a"
      "shard_width (num_shards a)" 1 "ensure_outdir (choose_outdir a) s", OF sd]
  obtain s' where "write_shards (choose_outdir a) (shard_width (num_shards a)) 1 ?buckets ?t
      (ensure_outdir (choose_outdir a) s) = (None, s')" by blast
  then show ?thesis
    unfolding main_unfold[OF assms(1)] by (simp add: t f sh t'[symmetric])
qed

end
